theory Spec2Isabelle
  imports Main "HOL-Library.Word" "HOL-Library.Signed_Division"
begin

unbundle bit_operations_syntax

section \<open>The machine: bytes, files, faults\<close>

text \<open>
  The decoder of \<^verbatim>\<open>gifdec.c\<close> reads a file through POSIX \<^verbatim>\<open>read\<close> and
  \<^verbatim>\<open>lseek\<close> and never looks at what they return. A \<^verbatim>\<open>read\<close> at the end of
  the file stores nothing, so the buffer keeps what it held before. The file is a byte list
  with a position; a read hands back the bytes that were really there.

  C \<^verbatim>\<open>int\<close> is taken to be 32 bits wide. Values the code keeps in \<^verbatim>\<open>uint8_t\<close>
  are \<open>8 word\<close>; values kept in \<^verbatim>\<open>uint16_t\<close> and non-negative \<^verbatim>\<open>int\<close>s are
  \<open>nat\<close>, with the truncation \<open>mod 65536\<close> written where the code stores into sixteen bits.

  Behaviour that C leaves undefined is a \<open>fault\<close>: the model stops there with \<open>Inl\<close>.
  The model also stops, with \<open>ShortRead\<close>, where the code goes on to use a local buffer
  that a read at the end of the file has left without a value.
\<close>

type_synonym u8 = "8 word"

datatype fault =
    ShortRead        \<comment> \<open>a buffer that \<^verbatim>\<open>read\<close> left unfilled is used\<close>
  | Uninitialised    \<comment> \<open>an automatic variable is used before it was assigned\<close>
  | NullPointer      \<comment> \<open>the table pointer is NULL (malloc failed) and is dereferenced\<close>
  | OutOfBounds      \<comment> \<open>an access outside the allocated raster or code table\<close>
  | DivisionByZero
  | IntegerOverflow  \<comment> \<open>signed overflow of an \<^verbatim>\<open>int\<close>\<close>
  | ShiftTooLarge    \<comment> \<open>\<^verbatim>\<open>1 << n\<close> with \<open>n \<ge> 31\<close>\<close>

record gd_file =
  content :: "u8 list"
  offset :: nat

definition read_bytes :: "gd_file \<Rightarrow> nat \<Rightarrow> u8 list \<times> gd_file" where
  "read_bytes f n =
     (let got = take n (drop (offset f) (content f))
      in (got, f\<lparr>offset := offset f + length got\<rparr>))"

definition read_byte :: "gd_file \<Rightarrow> u8 option \<times> gd_file" where
  "read_byte f =
     (if offset f < length (content f)
      then (Some (content f ! offset f), f\<lparr>offset := offset f + 1\<rparr>)
      else (None, f))"

definition lseek_cur :: "gd_file \<Rightarrow> nat \<Rightarrow> gd_file" where
  "lseek_cur f n = f\<lparr>offset := offset f + n\<rparr>"

definition int_ok :: "int \<Rightarrow> bool" where
  "int_ok v \<longleftrightarrow> - (2 ^ 31) \<le> v \<and> v < 2 ^ 31"

text \<open>
  What the allocator grants is not decided by the program: \<open>table_ok n\<close> says whether a code
  table of \<open>n\<close> entries can be had, \<open>raster_ok n\<close> whether a decoder with a raster of \<open>n\<close>
  bytes can be had. Memory from \<^verbatim>\<open>malloc\<close> and \<^verbatim>\<open>realloc\<close> holds unspecified bytes:
  \<open>junk i\<close> is what slot \<open>i\<close> of a fresh table holds before the code writes it.
\<close>

record Entry =
  length_e :: nat
  prefix_e :: nat
  suffix_e :: u8

record allocator =
  table_ok :: "nat \<Rightarrow> bool"
  raster_ok :: "nat \<Rightarrow> bool"
  junk :: "nat \<Rightarrow> Entry"

record Table =
  bulk :: nat
  nentries :: nat
  entries :: "nat \<Rightarrow> Entry"

section \<open>The decoder object\<close>

text \<open>
  Modelled from the spec: the header \<^verbatim>\<open>gifdec.h\<close> with the declarations of
  \<^verbatim>\<open>gd_Palette\<close>, \<^verbatim>\<open>gd_GCE\<close> and \<^verbatim>\<open>gd_GIF\<close> is missing. The records below
  have the fields that \<^verbatim>\<open>gifdec.c\<close> assigns and reads; a palette holds room for 256 RGB
  triplets; \<open>palette\<close> points to the global or to the local table. The three fields set from
  the packed byte of a graphic control extension hold the value the code computes.
\<close>

record gd_Palette =
  size_p :: nat
  colors :: "u8 list"

record gd_GCE =
  delay :: nat
  tindex :: u8
  disposal :: u8
  input :: u8
  transparency :: u8

datatype palette_ref = GCT | LCT

record gd_GIF =
  fd :: gd_file
  width :: nat
  height :: nat
  loop_count :: nat
  gce :: gd_GCE
  palette :: palette_ref
  lct :: gd_Palette
  gct :: gd_Palette
  frame :: "u8 list"

definition read_num :: "gd_file \<Rightarrow> fault + nat \<times> gd_file" where
  "read_num f =
     (case read_bytes f 2 of
        ([b0, b1], f') \<Rightarrow> Inr (unat b0 + push_bit 8 (unat b1), f')
      | (_, f') \<Rightarrow> Inl ShortRead)"

definition zero_palette :: gd_Palette where
  "zero_palette = \<lparr>size_p = 0, colors = replicate 768 0\<rparr>"

definition zero_gce :: gd_GCE where
  "zero_gce = \<lparr>delay = 0, tindex = 0, disposal = 0, input = 0, transparency = 0\<rparr>"

text \<open>
  \<^verbatim>\<open>gd_open_gif\<close>. The argument is what the file system holds under the name: \<open>None\<close>
  when the file cannot be opened. The result \<open>Inr None\<close> is the return of NULL. The label
  \<^verbatim>\<open>fail\<close> falls through to \<^verbatim>\<open>return gif\<close>; on the four jumps that come before
  the \<^verbatim>\<open>calloc\<close> the local \<^verbatim>\<open>gif\<close> has never been assigned, and the function
  returns it: the fault \<open>Uninitialised\<close>.
\<close>

definition gd_open_gif :: "allocator \<Rightarrow> u8 list option \<Rightarrow> fault + gd_GIF option" where
  "gd_open_gif al fname =
     (case fname of
        None \<Rightarrow> Inr None
      | Some bytes \<Rightarrow>
          (let (sigver, fd1) = read_bytes \<lparr>content = bytes, offset = 0\<rparr> 3 in
           if length sigver < 3 then Inl ShortRead
           else if sigver \<noteq> [0x47, 0x49, 0x46] then Inl Uninitialised
           else
             (let (got, fd2) = read_bytes fd1 3;
                  sigver2 = got @ drop (length got) sigver in
              if sigver2 \<noteq> [0x38, 0x39, 0x61] then Inl Uninitialised
              else
                (case read_num fd2 of Inl e \<Rightarrow> Inl e | Inr (width', fd3) \<Rightarrow>
                (case read_num fd3 of Inl e \<Rightarrow> Inl e | Inr (height', fd4) \<Rightarrow>
                (case read_byte fd4 of
                   (None, fd5) \<Rightarrow> Inl ShortRead
                 | (Some fdsz, fd5) \<Rightarrow>
                     if fdsz AND 0x80 = 0 then Inl Uninitialised
                     else if drop_bit 4 fdsz AND 7 \<noteq> 7 then Inl Uninitialised
                     else
                       (let gct_sz = 2 ^ (unat (fdsz AND 0x07) + 1);
                            (bgidx, fd6) = read_byte fd5;
                            (aspect, fd7) = read_byte fd6 in
                        if \<not> int_ok (int width' * int height') then Inl IntegerOverflow
                        else if \<not> raster_ok al (width' * height') then Inr None
                        else
                          (let (cols, fd8) = read_bytes fd7 (3 * gct_sz) in
                           Inr (Some
                             \<lparr>fd = fd8, width = width', height = height', loop_count = 0,
                              gce = zero_gce, palette = GCT, lct = zero_palette,
                              gct = \<lparr>size_p = gct_sz,
                                     colors = cols @ drop (length cols) (replicate 768 0)\<rparr>,
                              frame = replicate (width' * height') 0\<rparr>)))))))))"

section \<open>Extension blocks\<close>

text \<open>
  \<^verbatim>\<open>discard_sub_blocks\<close> is a do-while loop. At the end of the file the read stores
  nothing, \<^verbatim>\<open>size\<close> keeps its last value, and a nonzero value keeps the loop going for
  ever: the result \<open>None\<close>. On the first round \<^verbatim>\<open>size\<close> holds nothing yet.
\<close>

partial_function (option)
  discard_loop :: "gd_GIF \<Rightarrow> u8 option \<Rightarrow> (fault + gd_GIF) option" where
  "discard_loop gif size0 =
     (case read_byte (fd gif) of (r, f1) \<Rightarrow>
        (case (case r of None \<Rightarrow> size0 | Some b \<Rightarrow> Some b) of
           None \<Rightarrow> Some (Inl ShortRead)
         | Some sz \<Rightarrow>
             (let gif' = gif\<lparr>fd := lseek_cur f1 (unat sz)\<rparr> in
              if sz \<noteq> 0 then discard_loop gif' (Some sz) else Some (Inr gif'))))"

definition discard_sub_blocks :: "gd_GIF \<Rightarrow> (fault + gd_GIF) option" where
  "discard_sub_blocks gif = discard_loop gif None"

definition read_plain_text_ext :: "gd_GIF \<Rightarrow> (fault + gd_GIF) option" where
  "read_plain_text_ext gif = discard_sub_blocks (gif\<lparr>fd := lseek_cur (fd gif) 13\<rparr>)"

definition read_graphic_control_ext :: "gd_GIF \<Rightarrow> fault + gd_GIF" where
  "read_graphic_control_ext gif =
     (case read_byte (lseek_cur (fd gif) 1) of
        (None, f1) \<Rightarrow> Inl ShortRead
      | (Some rdit, f1) \<Rightarrow>
          (let g1 = (gce gif)\<lparr>disposal := drop_bit 2 rdit AND 3,
                                input := rdit AND 2,
                                transparency := rdit AND 1\<rparr>
           in case read_num f1 of
                Inl e \<Rightarrow> Inl e
              | Inr (d, f2) \<Rightarrow>
                  (case read_byte f2 of (r, f3) \<Rightarrow>
                     Inr (gif\<lparr>fd := lseek_cur f3 1,
                              gce := g1\<lparr>delay := d,
                                        tindex := (case r of None \<Rightarrow> tindex g1 | Some b \<Rightarrow> b)\<rparr>\<rparr>))))"

definition read_comment_ext :: "gd_GIF \<Rightarrow> (fault + gd_GIF) option" where
  "read_comment_ext gif = discard_sub_blocks gif"

definition netscape :: "u8 list" where
  "netscape = [0x4E, 0x45, 0x54, 0x53, 0x43, 0x41, 0x50, 0x45]"

definition read_application_ext :: "gd_GIF \<Rightarrow> (fault + gd_GIF) option" where
  "read_application_ext gif =
     (let (app_id, f1) = read_bytes (lseek_cur (fd gif) 1) 8;
          (app_auth_code, f2) = read_bytes f1 3 in
      if length app_id < 8 then Some (Inl ShortRead)
      else if app_id = netscape then
        (case read_num (lseek_cur f2 2) of
           Inl e \<Rightarrow> Some (Inl e)
         | Inr (n, f3) \<Rightarrow> Some (Inr (gif\<lparr>fd := lseek_cur f3 1, loop_count := n\<rparr>)))
      else discard_sub_blocks (gif\<lparr>fd := f2\<rparr>))"

definition read_ext :: "gd_GIF \<Rightarrow> (fault + gd_GIF) option" where
  "read_ext gif =
     (case read_byte (fd gif) of
        (None, f1) \<Rightarrow> Some (Inl ShortRead)
      | (Some label, f1) \<Rightarrow>
          (let gif1 = gif\<lparr>fd := f1\<rparr> in
           if label = 0x01 then read_plain_text_ext gif1
           else if label = 0xF9 then Some (read_graphic_control_ext gif1)
           else if label = 0xFE then read_comment_ext gif1
           else if label = 0xFF then read_application_ext gif1
           else Some (Inr gif1)))"

section \<open>The code table\<close>

definition literal :: "nat \<Rightarrow> Entry" where
  "literal key = \<lparr>length_e = 1, prefix_e = 0xFFF, suffix_e = of_nat key\<rparr>"

text \<open>The loop of \<^verbatim>\<open>new_table\<close>: keys \<open>0\<close> up to \<open>n - 1\<close> are stored in turn.\<close>

fun fill_literals :: "nat \<Rightarrow> (nat \<Rightarrow> Entry) \<Rightarrow> nat \<Rightarrow> Entry" where
  "fill_literals 0 es = es"
| "fill_literals (Suc key) es = (fill_literals key es)(key := literal key)"

definition new_table :: "allocator \<Rightarrow> nat \<Rightarrow> fault + Table option" where
  "new_table al key_size =
     (if 31 \<le> key_size + 1 then Inl ShiftTooLarge
      else
        (let init_bulk = max (2 ^ (key_size + 1)) 0x100 in
         if table_ok al init_bulk
         then Inr (Some \<lparr>bulk = init_bulk, nentries = 2 ^ key_size + 2,
                          entries = fill_literals (2 ^ key_size) (junk al)\<rparr>)
         else Inr None))"

text \<open>
  \<^verbatim>\<open>add_entry\<close> returns the code (\<open>0\<close>, \<open>1\<close> or \<open>-1\<close>) and the table. The slots
  that \<^verbatim>\<open>realloc\<close> adds hold \<open>junk\<close>, which \<open>entries\<close> already has there.
  \<open>store_entry\<close> is the second half of the function: the store, the increment and the
  test for a power of two.
\<close>

definition store_entry :: "Table \<Rightarrow> Entry \<Rightarrow> fault + int \<times> Table" where
  "store_entry t e =
     (if bulk t \<le> nentries t then Inl OutOfBounds
      else
        (let t' = t\<lparr>entries := (entries t)(nentries t := e), nentries := nentries t + 1\<rparr>
         in if nentries t' AND (nentries t' - 1) = 0 then Inr (1, t') else Inr (0, t')))"

definition add_entry :: "allocator \<Rightarrow> Table \<Rightarrow> nat \<Rightarrow> nat \<Rightarrow> u8 \<Rightarrow> fault + int \<times> Table" where
  "add_entry al t len pre suf =
     (let e = \<lparr>length_e = len, prefix_e = pre, suffix_e = suf\<rparr> in
      if nentries t = bulk t then
        (if \<not> int_ok (2 * int (bulk t)) then Inl IntegerOverflow
         else if \<not> table_ok al (2 * bulk t) then Inr (- 1, t\<lparr>bulk := 2 * bulk t\<rparr>)
         else store_entry (t\<lparr>bulk := 2 * bulk t\<rparr>) e)
      else store_entry t e)"

section \<open>Extracting codes\<close>

text \<open>The block under \<^verbatim>\<open>/* Update byte. */\<close>: it gives the decoder, \<open>sub_len\<close> and \<open>byte\<close>.\<close>

definition update_byte :: "gd_GIF \<Rightarrow> u8 \<Rightarrow> u8 \<Rightarrow> gd_GIF \<times> u8 \<times> u8" where
  "update_byte gif sub_len0 byte0 =
     (let (r1, f1) = (if sub_len0 = 0 then read_byte (fd gif) else (None, fd gif));
          sub_len1 = (case r1 of None \<Rightarrow> sub_len0 | Some b \<Rightarrow> b);
          (r2, f2) = read_byte f1;
          byte1 = (case r2 of None \<Rightarrow> byte0 | Some b \<Rightarrow> b)
      in (gif\<lparr>fd := f2\<rparr>, sub_len1 - 1, byte1))"

text \<open>The bits of the current byte from \<open>rpad\<close> on: \<^verbatim>\<open>(uint16_t) ((*byte) >> rpad)\<close>.\<close>

definition fragment :: "u8 \<Rightarrow> nat \<Rightarrow> nat" where
  "fragment byte0 rpad = unat (drop_bit rpad byte0)"

function get_key_loop ::
  "gd_GIF \<Rightarrow> nat \<Rightarrow> u8 \<Rightarrow> u8 \<Rightarrow> u8 \<Rightarrow> nat \<Rightarrow> nat \<Rightarrow> fault + nat \<times> gd_GIF \<times> u8 \<times> u8" where
  "get_key_loop gif key_size sub_len0 shift0 byte0 bits_read key0 =
     (if bits_read < key_size then
        (let rpad = (unat shift0 + bits_read) mod 8;
             u = (if rpad = 0 then update_byte gif sub_len0 byte0 else (gif, sub_len0, byte0));
             frag_size = min (key_size - bits_read) (8 - rpad);
             v = push_bit bits_read (fragment (snd (snd u)) rpad)
         in if 32 \<le> bits_read then Inl ShiftTooLarge
            else if \<not> int_ok (int v) then Inl IntegerOverflow
            else get_key_loop (fst u) key_size (fst (snd u)) shift0 (snd (snd u))
                   (bits_read + frag_size) ((key0 OR v) mod 65536))
      else Inr (key0, gif, sub_len0, byte0))"
  by pat_completeness auto
termination
  by (relation "measure (\<lambda>(gif, key_size, sub_len0, shift0, byte0, bits_read, key0).
                           key_size - bits_read)") auto

declare get_key_loop.simps [simp del]

text \<open>\<^verbatim>\<open>get_key\<close> gives the key, the decoder, and the new \<open>sub_len\<close>, \<open>shift\<close> and \<open>byte\<close>.\<close>

definition get_key ::
  "gd_GIF \<Rightarrow> nat \<Rightarrow> u8 \<Rightarrow> u8 \<Rightarrow> u8 \<Rightarrow> fault + nat \<times> gd_GIF \<times> u8 \<times> u8 \<times> u8" where
  "get_key gif key_size sub_len0 shift0 byte0 =
     (case get_key_loop gif key_size sub_len0 shift0 byte0 0 0 of
        Inl e \<Rightarrow> Inl e
      | Inr (key0, gif', sub_len', byte') \<Rightarrow>
          if 31 \<le> key_size then Inl ShiftTooLarge
          else Inr (key0 AND (2 ^ key_size - 1), gif', sub_len',
                    of_nat ((unat shift0 + key_size) mod 8), byte'))"

section \<open>Decompressing the image data\<close>

text \<open>
  The store \<^verbatim>\<open>gif->frame[(y + p / w) * gif->width + x + p % w] = entry.suffix\<close>.
  Division and remainder of C truncate towards zero (\<open>sdiv\<close>, \<open>smod\<close>).
\<close>

definition frame_index :: "gd_GIF \<Rightarrow> nat \<Rightarrow> nat \<Rightarrow> nat \<Rightarrow> int \<Rightarrow> fault + int" where
  "frame_index gif x y w p =
     (if w = 0 then Inl DivisionByZero
      else
        (let row = int y + p sdiv int w;
             a = row * int (width gif);
             b = a + int x;
             c = b + p smod int w
         in if int_ok row \<and> int_ok a \<and> int_ok b \<and> int_ok c then Inr c
            else Inl IntegerOverflow))"

definition put_pixel :: "gd_GIF \<Rightarrow> nat \<Rightarrow> nat \<Rightarrow> nat \<Rightarrow> int \<Rightarrow> u8 \<Rightarrow> fault + gd_GIF" where
  "put_pixel gif x y w p v =
     (case frame_index gif x y w p of
        Inl e \<Rightarrow> Inl e
      | Inr i \<Rightarrow>
          if i < 0 \<or> int (length (frame gif)) \<le> i then Inl OutOfBounds
          else Inr (gif\<lparr>frame := (frame gif)[nat i := v]\<rparr>))"

text \<open>
  The inner loop of lines 308 to 315, which writes one string from right to left. It has no bound of its own:
  on a table whose prefixes run in a circle it never ends, the result \<open>None\<close>. The last
  argument and the last component of the result are not in the source: they list the
  pixel writes of the loop, in the order made, as linear offset \<open>p\<close> and value.
\<close>

partial_function (option)
  write_string :: "gd_GIF \<Rightarrow> Table \<Rightarrow> nat \<Rightarrow> nat \<Rightarrow> nat \<Rightarrow> nat \<Rightarrow> Entry \<Rightarrow> (int \<times> u8) list
                   \<Rightarrow> (fault + gd_GIF \<times> Entry \<times> (int \<times> u8) list) option" where
  "write_string gif t x y w frm_off0 e log =
     (if \<not> int_ok (int frm_off0 + int (length_e e)) then Some (Inl IntegerOverflow)
      else
        (let p = int frm_off0 + int (length_e e) - 1 in
         case put_pixel gif x y w p (suffix_e e) of
           Inl err \<Rightarrow> Some (Inl err)
         | Inr gif' \<Rightarrow>
             if prefix_e e = 0xFFF then Some (Inr (gif', e, log @ [(p, suffix_e e)]))
             else if bulk t \<le> prefix_e e then Some (Inl OutOfBounds)
             else write_string gif' t x y w frm_off0 (entries t (prefix_e e))
                    (log @ [(p, suffix_e e)])))"

text \<open>
  The local variables of \<^verbatim>\<open>read_image_data\<close>. Three of them are not assigned before the
  loop: \<open>table_is_full\<close>, \<open>str_len\<close> and \<open>entry\<close>. The fields \<open>emitted\<close> and
  \<open>written\<close> are not in the source: \<open>emitted\<close> holds the pixel writes of the latest string,
  \<open>written\<close> the pixel writes of all strings since the call, both in the order made.
\<close>

record lzw =
  sub_len :: u8
  shift :: u8
  byte :: u8
  init_key_size :: nat
  key_size :: nat
  table_is_full :: "bool option"
  frm_off :: nat
  str_len :: "nat option"
  key :: nat
  clear :: nat
  stop :: nat
  ret :: int
  table :: Table
  entry :: "Entry option"
  emitted :: "(int \<times> u8) list"
  written :: "(int \<times> u8) list"

text \<open>
  Lines 275 to 285, up to the loop. When \<^verbatim>\<open>malloc\<close> gave no table, the first round
  of the loop dereferences NULL (first code is the clear code) or reads \<open>table_is_full\<close>
  unassigned (any other first code); both faults are raised here.
\<close>

definition lzw_start :: "allocator \<Rightarrow> gd_GIF \<Rightarrow> fault + gd_GIF \<times> lzw" where
  "lzw_start al gif =
     (case read_byte (fd gif) of
        (None, f1) \<Rightarrow> Inl ShortRead
      | (Some byte0, f1) \<Rightarrow>
          (let k = unat byte0 in
           if 31 \<le> k then Inl ShiftTooLarge
           else
             (let clear0 = 2 ^ k mod 65536;
                  stop0 = (clear0 + 1) mod 65536
              in case new_table al k of
                   Inl e \<Rightarrow> Inl e
                 | Inr tab \<Rightarrow>
                     (case get_key (gif\<lparr>fd := f1\<rparr>) (k + 1) 0 0 byte0 of
                        Inl e \<Rightarrow> Inl e
                      | Inr (key0, gif1, sub_len1, shift1, byte1) \<Rightarrow>
                          (case tab of
                             None \<Rightarrow> if key0 = clear0 then Inl NullPointer else Inl Uninitialised
                           | Some t \<Rightarrow>
                               Inr (gif1,
                                    \<lparr>sub_len = sub_len1, shift = shift1, byte = byte1,
                                     init_key_size = k + 1, key_size = k + 1,
                                     table_is_full = None, frm_off = 0, str_len = None,
                                     key = key0, clear = clear0, stop = stop0, ret = 0,
                                     table = t, entry = None, emitted = [],
                                     written = []\<rparr>))))))"

text \<open>
  Lines 287 to 301, the head of the loop body: the reset on the clear code, or the addition
  of a table entry. \<open>Inr None\<close> is the \<^verbatim>\<open>return -1\<close>.
\<close>

definition lzw_head :: "allocator \<Rightarrow> lzw \<Rightarrow> fault + lzw option" where
  "lzw_head al s =
     (if key s = clear s then
        (if 31 \<le> init_key_size s - 1 then Inl ShiftTooLarge
         else Inr (Some (s\<lparr>key_size := init_key_size s,
                           table := (table s)\<lparr>nentries := 2 ^ (init_key_size s - 1) + 2\<rparr>,
                           table_is_full := Some False\<rparr>)))
      else
        (case table_is_full s of
           None \<Rightarrow> Inl Uninitialised
         | Some True \<Rightarrow> Inr (Some s)
         | Some False \<Rightarrow>
             (case (str_len s, entry s) of
                (Some l, Some e) \<Rightarrow>
                  (if \<not> int_ok (int l + 1) then Inl IntegerOverflow
                   else
                     (case add_entry al (table s) ((l + 1) mod 65536) (key s) (suffix_e e) of
                        Inl err \<Rightarrow> Inl err
                      | Inr (r, t') \<Rightarrow>
                          if r = - 1 then Inr None
                          else if nentries t' = 0x1000
                          then Inr (Some (s\<lparr>table := t', ret := 0, table_is_full := Some True\<rparr>))
                          else Inr (Some (s\<lparr>table := t', ret := r\<rparr>))))
              | _ \<Rightarrow> Inl Uninitialised)))"

datatype flow = Continue gd_GIF lzw | Break gd_GIF lzw | Return int gd_GIF

text \<open>Lines 317 and 318: the suffix of the newest entry is set to the first byte of the string.\<close>

definition patch_suffix :: "nat \<Rightarrow> lzw \<Rightarrow> fault + lzw" where
  "patch_suffix k s =
     (if k + 1 < nentries (table s) then
        (case table_is_full s of
           None \<Rightarrow> Inl Uninitialised
         | Some True \<Rightarrow> Inr s
         | Some False \<Rightarrow>
             (case entry s of
                None \<Rightarrow> Inl Uninitialised
              | Some e \<Rightarrow>
                  (let n = nentries (table s) - 1 in
                   if bulk (table s) \<le> n then Inl OutOfBounds
                   else Inr (s\<lparr>table := (table s)\<lparr>entries :=
                          (entries (table s))(n := (entries (table s) n)\<lparr>suffix_e := suffix_e e\<rparr>)\<rparr>\<rparr>))))
      else Inr s)"

text \<open>One round of the loop \<^verbatim>\<open>while (1)\<close> of lines 286 to 319.\<close>

definition lzw_iter ::
  "allocator \<Rightarrow> nat \<Rightarrow> nat \<Rightarrow> nat \<Rightarrow> gd_GIF \<Rightarrow> lzw \<Rightarrow> (fault + flow) option" where
  "lzw_iter al x y w gif s =
     (case lzw_head al s of
        Inl err \<Rightarrow> Some (Inl err)
      | Inr None \<Rightarrow> Some (Inr (Return (- 1) gif))
      | Inr (Some s1) \<Rightarrow>
          (case get_key gif (key_size s1) (sub_len s1) (shift s1) (byte s1) of
             Inl err \<Rightarrow> Some (Inl err)
           | Inr (k, gif1, sub_len1, shift1, byte1) \<Rightarrow>
               (let s2 = s1\<lparr>key := k, sub_len := sub_len1, shift := shift1, byte := byte1\<rparr> in
                if k = clear s2 then Some (Inr (Continue gif1 s2))
                else if k = stop s2 then Some (Inr (Break gif1 s2))
                else
                  (let s3 = (if ret s2 = 1 then s2\<lparr>key_size := key_size s2 + 1\<rparr> else s2) in
                   if bulk (table s3) \<le> k then Some (Inl OutOfBounds)
                   else
                     (let e = entries (table s3) k;
                          s4 = s3\<lparr>entry := Some e, str_len := Some (length_e e)\<rparr>
                      in case write_string gif1 (table s4) x y w (frm_off s4) e [] of
                           None \<Rightarrow> None
                         | Some (Inl err) \<Rightarrow> Some (Inl err)
                         | Some (Inr (gif2, e', log)) \<Rightarrow>
                             if \<not> int_ok (int (frm_off s4) + int (length_e e))
                             then Some (Inl IntegerOverflow)
                             else
                               (case patch_suffix k
                                       (s4\<lparr>entry := Some e',
                                           frm_off := frm_off s4 + length_e e,
                                           emitted := log,
                                           written := written s4 @ log\<rparr>) of
                                  Inl err \<Rightarrow> Some (Inl err)
                                | Inr s5 \<Rightarrow> Some (Inr (Continue gif2 s5))))))))"

text \<open>
  The loop, and what follows it: the table is freed, one more byte is read into
  \<open>sub_len\<close>, and the function returns \<open>0\<close>.
\<close>

partial_function (option)
  lzw_loop :: "allocator \<Rightarrow> nat \<Rightarrow> nat \<Rightarrow> nat \<Rightarrow> gd_GIF \<Rightarrow> lzw \<Rightarrow> (fault + int \<times> gd_GIF) option" where
  "lzw_loop al x y w gif s =
     (case lzw_iter al x y w gif s of
        None \<Rightarrow> None
      | Some (Inl err) \<Rightarrow> Some (Inl err)
      | Some (Inr (Return r gif')) \<Rightarrow> Some (Inr (r, gif'))
      | Some (Inr (Break gif' s')) \<Rightarrow>
          Some (Inr (0, gif'\<lparr>fd := snd (read_byte (fd gif'))\<rparr>))
      | Some (Inr (Continue gif' s')) \<Rightarrow> lzw_loop al x y w gif' s')"

definition read_image_data ::
  "allocator \<Rightarrow> gd_GIF \<Rightarrow> nat \<Rightarrow> nat \<Rightarrow> nat \<Rightarrow> (fault + int \<times> gd_GIF) option" where
  "read_image_data al gif x y w =
     (case lzw_start al gif of
        Inl err \<Rightarrow> Some (Inl err)
      | Inr (gif1, s) \<Rightarrow> lzw_loop al x y w gif1 s)"

section \<open>Images and frames\<close>

definition read_image :: "allocator \<Rightarrow> gd_GIF \<Rightarrow> (fault + int \<times> gd_GIF) option" where
  "read_image al gif =
     (case read_num (fd gif) of Inl e \<Rightarrow> Some (Inl e) | Inr (x, f1) \<Rightarrow>
     (case read_num f1 of Inl e \<Rightarrow> Some (Inl e) | Inr (y, f2) \<Rightarrow>
     (case read_num f2 of Inl e \<Rightarrow> Some (Inl e) | Inr (w, f3) \<Rightarrow>
     (case read_num f3 of Inl e \<Rightarrow> Some (Inl e) | Inr (h, f4) \<Rightarrow>
     (case read_byte f4 of
        (None, f5) \<Rightarrow> Some (Inl ShortRead)
      | (Some fisrz, f5) \<Rightarrow>
          (let interlace = fisrz AND 0x40 in
           if fisrz AND 0x80 \<noteq> 0 then
             (let sz = 2 ^ (unat (fisrz AND 0x07) + 1);
                  (cols, f6) = read_bytes f5 (3 * sz)
              in read_image_data al
                   (gif\<lparr>fd := f6, palette := LCT,
                        lct := \<lparr>size_p = sz,
                                colors = cols @ drop (length cols) (colors (lct gif))\<rparr>\<rparr>)
                   x y w)
           else read_image_data al (gif\<lparr>fd := f5, palette := GCT\<rparr>) x y w))))))"

text \<open>
  \<^verbatim>\<open>gd_get_frame\<close>: the loop over separators. \<open>sep\<close> is the byte in \<^verbatim>\<open>sep\<close> when the
  loop test is made; a read at the end of the file leaves it as it was.
\<close>

partial_function (option)
  frame_loop :: "allocator \<Rightarrow> gd_GIF \<Rightarrow> u8 \<Rightarrow> (fault + int \<times> gd_GIF) option" where
  "frame_loop al gif sep =
     (if sep \<noteq> 0x2C then
        (if sep = 0x3B then Some (Inr (0, gif))
         else if sep = 0x21 then
           (case read_ext gif of
              None \<Rightarrow> None
            | Some (Inl e) \<Rightarrow> Some (Inl e)
            | Some (Inr gif1) \<Rightarrow>
                (case read_byte (fd gif1) of (r, f1) \<Rightarrow>
                   frame_loop al (gif1\<lparr>fd := f1\<rparr>) (case r of None \<Rightarrow> sep | Some b \<Rightarrow> b)))
         else Some (Inr (- 1, gif)))
      else
        (case read_image al gif of
           None \<Rightarrow> None
         | Some (Inl e) \<Rightarrow> Some (Inl e)
         | Some (Inr (r, gif1)) \<Rightarrow> if r = - 1 then Some (Inr (- 1, gif1)) else Some (Inr (1, gif1))))"

definition gd_get_frame :: "allocator \<Rightarrow> gd_GIF \<Rightarrow> (fault + int \<times> gd_GIF) option" where
  "gd_get_frame al gif =
     (case read_byte (fd gif) of
        (None, f1) \<Rightarrow> Some (Inl ShortRead)
      | (Some sep, f1) \<Rightarrow> frame_loop al (gif\<lparr>fd := f1\<rparr>) sep)"

section \<open>Notions used by the properties\<close>

text \<open>
  Two decoders have the same canvas when they differ at most in the stream position, the
  graphic control fields and the loop count: raster, palette pointer, both palettes and the
  screen size are equal.
\<close>

definition same_canvas :: "gd_GIF \<Rightarrow> gd_GIF \<Rightarrow> bool" where
  "same_canvas g g' \<longleftrightarrow>
     frame g' = frame g \<and> palette g' = palette g \<and> gct g' = gct g \<and> lct g' = lct g \<and>
     width g' = width g \<and> height g' = height g"

text \<open>The graphic control fields as the code sets them from the packed byte, the two delay
  bytes and the transparent index.\<close>

definition gce_of_bytes :: "u8 \<Rightarrow> u8 \<Rightarrow> u8 \<Rightarrow> u8 \<Rightarrow> gd_GCE" where
  "gce_of_bytes rdit d0 d1 t =
     \<lparr>delay = unat d0 + 256 * unat d1, tindex = t,
      disposal = drop_bit 2 rdit AND 3, input = rdit AND 2, transparency = rdit AND 1\<rparr>"

text \<open>
  Concrete inputs. \<open>generous\<close> grants every allocation and hands out zeroed memory;
  \<open>decoder_on bytes\<close> is a decoder for a screen of 2 by 2 pixels with a black raster,
  about to read \<open>bytes\<close>.
\<close>

definition generous :: allocator where
  "generous = \<lparr>table_ok = (\<lambda>n. True), raster_ok = (\<lambda>n. True),
               junk = (\<lambda>i. \<lparr>length_e = 0, prefix_e = 0, suffix_e = 0\<rparr>)\<rparr>"

definition decoder_on :: "u8 list \<Rightarrow> gd_GIF" where
  "decoder_on bytes =
     \<lparr>fd = \<lparr>content = bytes, offset = 0\<rparr>, width = 2, height = 2, loop_count = 0,
      gce = zero_gce, palette = GCT, lct = zero_palette, gct = zero_palette,
      frame = [0, 0, 0, 0]\<rparr>"

text \<open>A graphic control block (after its label) with packed byte \<open>0x10\<close>.\<close>

definition gce_block :: "u8 list" where
  "gce_block = [0x04, 0x10, 0x0A, 0x00, 0x07, 0x00]"

text \<open>
  Image data with minimum code size 2, holding the codes clear, 1, 1, stop in three bits
  each. In \<open>split_data\<close> a length byte of zero stands between the two data bytes.
\<close>

definition two_pixels :: "u8 list" where
  "two_pixels = [0x02, 0x02, 0x4C, 0x0A, 0x00]"

definition split_data :: "u8 list" where
  "split_data = [0x02, 0x01, 0x4C, 0x00, 0x0A, 0x00]"

text \<open>The first bytes of a file of the dialect 87a, with a global palette of two colours.\<close>

definition gif87a :: "u8 list" where
  "gif87a = [0x47, 0x49, 0x46, 0x38, 0x37, 0x61, 0x01, 0x00, 0x01, 0x00, 0xF0, 0x00, 0x00,
             0x00, 0x00, 0x00, 0xFF, 0xFF, 0xFF, 0x3B]"

text \<open>A stream with one graphic control extension and then the trailer.\<close>

definition gce_then_trailer :: "u8 list" where
  "gce_then_trailer = [0x21, 0xF9, 0x04, 0x05, 0x0A, 0x00, 0x07, 0x00, 0x3B]"

section \<open>Sessions of the LZW loop\<close>

text \<open>
  \<open>visits ok al x y w gif0 gif s\<close>: the loop of \<open>read_image_data al gif0 x y w\<close> comes to
  its head with the decoder \<open>gif\<close> and the locals \<open>s\<close>, and every state at the head so far,
  this one too, satisfies \<open>ok\<close>.
\<close>

inductive visits ::
  "(lzw \<Rightarrow> bool) \<Rightarrow> allocator \<Rightarrow> nat \<Rightarrow> nat \<Rightarrow> nat \<Rightarrow> gd_GIF \<Rightarrow> gd_GIF \<Rightarrow> lzw \<Rightarrow> bool"
  for ok :: "lzw \<Rightarrow> bool" and al :: allocator and x :: nat and y :: nat and w :: nat
    and gif0 :: gd_GIF where
  first: "lzw_start al gif0 = Inr (gif, s) \<Longrightarrow> ok s \<Longrightarrow> visits ok al x y w gif0 gif s"
| round: "visits ok al x y w gif0 gif s \<Longrightarrow>
          lzw_iter al x y w gif s = Some (Inr (Continue gif' s')) \<Longrightarrow> ok s' \<Longrightarrow>
          visits ok al x y w gif0 gif' s'"

code_pred visits .

text \<open>Three conditions on the states at the head of the loop.\<close>

definition any_state :: "lzw \<Rightarrow> bool" where
  "any_state s \<longleftrightarrow> True"

text \<open>The code in \<open>key\<close>, the one read last, is below the number of table entries.\<close>

definition in_range :: "lzw \<Rightarrow> bool" where
  "in_range s \<longleftrightarrow> key s < nentries (table s)"

text \<open>No clear code has been read while \<open>ret\<close> still asks for a wider code.\<close>

definition no_stale_ret :: "lzw \<Rightarrow> bool" where
  "no_stale_ret s \<longleftrightarrow> \<not> (key s = clear s \<and> ret s = 1)"

text \<open>
  \<open>chain n es e\<close>: the entries that the inner loop goes through when it starts at \<open>e\<close>,
  at most \<open>n\<close> of them.
\<close>

fun chain :: "nat \<Rightarrow> (nat \<Rightarrow> Entry) \<Rightarrow> Entry \<Rightarrow> Entry list" where
  "chain 0 es e = []"
| "chain (Suc n) es e = e # (if prefix_e e = 0xFFF then [] else chain n es (es (prefix_e e)))"

text \<open>The pixel writes, as the inner loop makes them, for a list of entries gone through.\<close>

definition writes_of :: "nat \<Rightarrow> Entry list \<Rightarrow> (int \<times> u8) list" where
  "writes_of frm_off0 c = map (\<lambda>e. (int frm_off0 + int (length_e e) - 1, suffix_e e)) c"

text \<open>The string that a list of pixel writes spells, from left to right.\<close>

definition string_of :: "(int \<times> u8) list \<Rightarrow> u8 list" where
  "string_of log = rev (map snd log)"

text \<open>
  A table is good for the clear code \<open>cl\<close> when the entries below \<open>cl\<close> are literals and
  every entry from \<open>cl + 2\<close> on that is counted has an earlier entry, neither of the two
  reserved ones, as its prefix and is longer by one.
\<close>

definition good_table :: "nat \<Rightarrow> Table \<Rightarrow> bool" where
  "good_table cl t \<longleftrightarrow>
     cl + 2 \<le> nentries t \<and> nentries t \<le> bulk t \<and> nentries t \<le> 0x1000 \<and>
     (\<forall>i < cl. length_e (entries t i) = 1 \<and> prefix_e (entries t i) = 0xFFF) \<and>
     (\<forall>i. cl + 2 \<le> i \<and> i < nentries t \<longrightarrow>
        prefix_e (entries t i) < i \<and> prefix_e (entries t i) \<noteq> cl \<and>
        prefix_e (entries t i) \<noteq> cl + 1 \<and>
        length_e (entries t i) = length_e (entries t (prefix_e (entries t i))) + 1)"

text \<open>A code that may be looked up: below the number of entries and not reserved.\<close>

definition good_code :: "nat \<Rightarrow> Table \<Rightarrow> nat \<Rightarrow> bool" where
  "good_code cl t c \<longleftrightarrow> c < nentries t \<and> c \<noteq> cl \<and> c \<noteq> cl + 1"

text \<open>The entries gone through for the code \<open>c\<close> of table \<open>t\<close>.\<close>

definition chain_of :: "Table \<Rightarrow> nat \<Rightarrow> Entry list" where
  "chain_of t c = chain (length_e (entries t c)) (entries t) (entries t c)"

text \<open>What holds at the head of the loop whatever codes are read.\<close>

definition size_inv :: "lzw \<Rightarrow> bool" where
  "size_inv s \<longleftrightarrow>
     1 \<le> init_key_size s \<and> init_key_size s \<le> 12 \<and>
     nentries (table s) \<le> 0x1000 \<and>
     (table_is_full s = Some True \<longleftrightarrow> nentries (table s) = 0x1000)"

definition width_inv :: "lzw \<Rightarrow> bool" where
  "width_inv s \<longleftrightarrow>
     size_inv s \<and> init_key_size s \<le> key_size s \<and> key_size s \<le> 12 \<and>
     (table_is_full s = Some True \<longrightarrow> ret s \<noteq> 1) \<and>
     (key s \<noteq> clear s \<longrightarrow> 2 ^ (key_size s - 1) \<le> nentries (table s))"

text \<open>What holds at the head of the loop as long as every code read is in range.\<close>

definition table_inv :: "lzw \<Rightarrow> bool" where
  "table_inv s \<longleftrightarrow>
     size_inv s \<and> clear s = 2 ^ (init_key_size s - 1) \<and> stop s = clear s + 1 \<and>
     good_table (clear s) (table s) \<and>
     (key s \<noteq> clear s \<and> table_is_full s \<noteq> None \<longrightarrow>
        key s < nentries (table s) \<and> key s \<noteq> stop s \<and>
        str_len s = Some (length_e (entries (table s) (key s))) \<and>
        length_e (entries (table s) (key s)) \<le> frm_off s \<and>
        entry s = Some (last (chain_of (table s) (key s))) \<and>
        emitted s = writes_of (frm_off s - length_e (entries (table s) (key s)))
                      (chain_of (table s) (key s)))"

text \<open>The locals after a code \<open>k\<close> has been read, looked up and written, before line 317.\<close>

definition looked_up :: "lzw \<Rightarrow> nat \<Rightarrow> u8 \<Rightarrow> u8 \<Rightarrow> u8 \<Rightarrow> Entry \<Rightarrow> (int \<times> u8) list \<Rightarrow> lzw" where
  "looked_up s1 k sl sh b e' log =
     s1\<lparr>key := k, sub_len := sl, shift := sh, byte := b,
        key_size := (if ret s1 = 1 then key_size s1 + 1 else key_size s1),
        str_len := Some (length_e (entries (table s1) k)), entry := Some e',
        frm_off := frm_off s1 + length_e (entries (table s1) k), emitted := log,
        written := written s1 @ log\<rparr>"

text \<open>
  A list of pixel writes, made one after the other with the store of line 310.
\<close>

fun put_pixels :: "gd_GIF \<Rightarrow> nat \<Rightarrow> nat \<Rightarrow> nat \<Rightarrow> (int \<times> u8) list \<Rightarrow> fault + gd_GIF" where
  "put_pixels gif x y w [] = Inr gif"
| "put_pixels gif x y w (pv # ws) =
     (case put_pixel gif x y w (fst pv) (snd pv) of
        Inl err \<Rightarrow> Inl err
      | Inr gif' \<Rightarrow> put_pixels gif' x y w ws)"

text \<open>
  The flat offset of the raster cell in which the pixel with the linear offset \<open>p\<close> of
  an image belongs, when the rectangle of the image starts in column \<open>x\<close> and row \<open>y\<close>
  and is \<open>w\<close> wide; and the raster after a list of pixel writes, each stored in the cell
  of its offset, the first write first.
\<close>

definition raster_cell :: "gd_GIF \<Rightarrow> nat \<Rightarrow> nat \<Rightarrow> nat \<Rightarrow> nat \<Rightarrow> nat" where
  "raster_cell gif x y w p = (y + p div w) * width gif + (x + p mod w)"

fun store_writes :: "gd_GIF \<Rightarrow> nat \<Rightarrow> nat \<Rightarrow> nat \<Rightarrow> (int \<times> u8) list \<Rightarrow> u8 list \<Rightarrow> u8 list" where
  "store_writes gif x y w [] fr = fr"
| "store_writes gif x y w (pv # ws) fr =
     store_writes gif x y w ws (fr[raster_cell gif x y w (nat (fst pv)) := snd pv])"

text \<open>
  The raster cell with the flat offset \<open>i\<close>, which is the cell in row \<open>i div width\<close> and
  column \<open>i mod width\<close>, lies in the rectangle of \<open>w\<close> by \<open>h\<close> cells whose top left
  cell is in column \<open>x\<close> and row \<open>y\<close>.
\<close>

definition in_rect :: "gd_GIF \<Rightarrow> nat \<Rightarrow> nat \<Rightarrow> nat \<Rightarrow> nat \<Rightarrow> nat \<Rightarrow> bool" where
  "in_rect gif x y w h i \<longleftrightarrow>
     x \<le> i mod width gif \<and> i mod width gif < x + w \<and>
     y \<le> i div width gif \<and> i div width gif < y + h"

text \<open>
  The decoder and the locals at the head of the loop after \<open>n\<close> rounds, as long as the
  loop goes on; \<open>gif_at\<close> and \<open>state_at\<close> are the two components.
\<close>

fun nth_round ::
  "allocator \<Rightarrow> nat \<Rightarrow> nat \<Rightarrow> nat \<Rightarrow> gd_GIF \<Rightarrow> nat \<Rightarrow> (gd_GIF \<times> lzw) option" where
  "nth_round al x y w gif0 0 =
     (case lzw_start al gif0 of Inl err \<Rightarrow> None | Inr (gif, s) \<Rightarrow> Some (gif, s))"
| "nth_round al x y w gif0 (Suc n) =
     (case nth_round al x y w gif0 n of
        None \<Rightarrow> None
      | Some (gif, s) \<Rightarrow>
          (case lzw_iter al x y w gif s of
             Some (Inr (Continue gif' s')) \<Rightarrow> Some (gif', s')
           | _ \<Rightarrow> None))"

text \<open>The locals after the head of a round (the locals themselves when the head fails).\<close>

definition after_head :: "allocator \<Rightarrow> lzw \<Rightarrow> lzw" where
  "after_head al s = (case lzw_head al s of Inr (Some s1) \<Rightarrow> s1 | _ \<Rightarrow> s)"

definition gif_at :: "allocator \<Rightarrow> nat \<Rightarrow> nat \<Rightarrow> nat \<Rightarrow> gd_GIF \<Rightarrow> nat \<Rightarrow> gd_GIF" where
  "gif_at al x y w gif0 n = fst (the (nth_round al x y w gif0 n))"

definition state_at :: "allocator \<Rightarrow> nat \<Rightarrow> nat \<Rightarrow> nat \<Rightarrow> gd_GIF \<Rightarrow> nat \<Rightarrow> lzw" where
  "state_at al x y w gif0 n = snd (the (nth_round al x y w gif0 n))"

text \<open>
  More image data. \<open>three_pixels\<close>: minimum code size 2 and the codes clear, 1, 1, 1 in
  three bits and stop in four. \<open>repeat_data\<close>: minimum code size 2 and the codes clear, 1,
  6, stop in three bits; 6 is the entry that a decoder has not added yet when it reads it.
  \<open>wide_codes\<close>: minimum code size 12 and the codes clear (4096), 4095, 4098, stop (4097)
  in thirteen bits. \<open>small_image\<close>: an image descriptor for the rectangle of one pixel
  at the origin, without local palette, followed by \<open>two_pixels\<close>.
\<close>

definition three_pixels :: "u8 list" where
  "three_pixels = [0x02, 0x02, 0x4C, 0x52, 0x00]"

definition repeat_data :: "u8 list" where
  "repeat_data = [0x02, 0x02, 0x8C, 0x0B, 0x00]"

definition wide_codes :: "u8 list" where
  "wide_codes = [0x0C, 0x07, 0x00, 0xF0, 0xFF, 0x09, 0xC0, 0x00, 0x08, 0x00]"

definition small_image :: "u8 list" where
  "small_image = [0x00, 0x00, 0x00, 0x00, 0x01, 0x00, 0x01, 0x00, 0x00] @ two_pixels"

section \<open>Reading bytes\<close>

lemma read_byte_avail:
  "offset f < length (content f) \<Longrightarrow>
   read_byte f = (Some (content f ! offset f), f\<lparr>offset := offset f + 1\<rparr>)"
  by (simp add: read_byte_def)

lemma read_bytes_two:
  assumes "offset f + 2 \<le> length (content f)"
  shows "read_bytes f 2 =
         ([content f ! offset f, content f ! (offset f + 1)], f\<lparr>offset := offset f + 2\<rparr>)"
proof -
  have "take 2 (drop (offset f) (content f)) = [content f ! offset f, content f ! (offset f + 1)]"
    using assms
    by (simp add: numeral_2_eq_2 take_Suc_conv_app_nth)
  then show ?thesis
    by (simp add: read_bytes_def)
qed

lemma read_num_avail:
  assumes "offset f + 2 \<le> length (content f)"
  shows "read_num f =
         Inr (unat (content f ! offset f) + 256 * unat (content f ! (offset f + 1)),
              f\<lparr>offset := offset f + 2\<rparr>)"
  by (simp add: read_num_def read_bytes_two [OF assms] push_bit_eq_mult)

lemma nat_plus_numerals:
  "(n::nat) + 3 = Suc (Suc (Suc n))"
  "(n::nat) + 4 = Suc (Suc (Suc (Suc n)))"
  "(n::nat) + 5 = Suc (Suc (Suc (Suc (Suc n))))"
  "(n::nat) + 6 = Suc (Suc (Suc (Suc (Suc (Suc n)))))"
  by simp_all

lemma and_mask_nat: "(n::nat) AND (2 ^ k - 1) = n mod 2 ^ k"
  by (metis mask_eq_exp_minus_1 take_bit_eq_mask take_bit_eq_mod)

lemma fill_literals_apply: "fill_literals n es k = (if k < n then literal k else es k)"
  by (induction n) auto

text \<open>The equations that run the decoder on a concrete stream.\<close>

lemmas run_simps =
  lzw_start_def new_table_def get_key_def get_key_loop.simps update_byte_def read_byte_def
  Let_def fragment_def int_ok_def lzw_loop.simps lzw_iter_def lzw_head_def add_entry_def
  store_entry_def write_string.simps put_pixel_def frame_index_def patch_suffix_def
  fill_literals_apply literal_def signed_divide_int_def signed_modulo_int_def
  read_image_data_def generous_def decoder_on_def

section \<open>The graphic control extension (C3)\<close>

text \<open>
  C3, as amended. Parsing a graphic control extension whose six bytes are there skips the
  size byte, sets the disposal to bits 3..2 of the packed byte (two bits, not the three
  bits 4..2), the user-input field to the packed byte masked with 2 and the transparency field
  to the packed byte masked with 1, reads the delay as a little-endian 16-bit number and the
  transparent colour index, and skips the block terminator: the position moves on by six.
\<close>

theorem read_graphic_control_ext_fields:
  assumes "offset (fd gif) + 6 \<le> length (content (fd gif))"
  shows "read_graphic_control_ext gif =
         Inr (gif\<lparr>fd := (fd gif)\<lparr>offset := offset (fd gif) + 6\<rparr>,
                  gce := gce_of_bytes (content (fd gif) ! (offset (fd gif) + 1))
                           (content (fd gif) ! (offset (fd gif) + 2))
                           (content (fd gif) ! (offset (fd gif) + 3))
                           (content (fd gif) ! (offset (fd gif) + 4))\<rparr>)"
  using assms
  by (cases "gce gif")
     (simp add: read_graphic_control_ext_def lseek_cur_def read_byte_avail read_num_avail
        gce_of_bytes_def Let_def nat_plus_numerals)

theorem read_graphic_control_ext_fields_witness:
  "offset (fd (decoder_on gce_block)) + 6 \<le> length (content (fd (decoder_on gce_block))) \<and>
   read_graphic_control_ext (decoder_on gce_block) =
     Inr ((decoder_on gce_block)
            \<lparr>fd := \<lparr>content = gce_block, offset = 6\<rparr>,
             gce := \<lparr>delay = 10, tindex = 7, disposal = 0, input = 0, transparency = 0\<rparr>\<rparr>)"
proof -
  have h: "offset (fd (decoder_on gce_block)) + 6 \<le> length (content (fd (decoder_on gce_block)))"
    by (simp add: decoder_on_def gce_block_def)
  show ?thesis
    using h read_graphic_control_ext_fields [OF h]
    by (simp add: decoder_on_def gce_block_def gce_of_bytes_def)
qed

text \<open>
  C3 as stated fails: with the packed byte \<open>0x10\<close> bits 4..2 hold the value 4, and the
  disposal that the code stores is 0.
\<close>

theorem disposal_not_three_bits:
  "read_graphic_control_ext (decoder_on gce_block) =
     Inr ((decoder_on gce_block)
            \<lparr>fd := \<lparr>content = gce_block, offset = 6\<rparr>,
             gce := \<lparr>delay = 10, tindex = 7, disposal = 0, input = 0, transparency = 0\<rparr>\<rparr>) \<and>
   gce_block ! 1 = 0x10 \<and> drop_bit 2 (0x10 :: u8) AND 7 = 4"
  by (simp add: read_graphic_control_ext_def lseek_cur_def read_byte_def read_num_def
      read_bytes_def decoder_on_def gce_block_def zero_gce_def Let_def)

section \<open>A length byte of zero inside the image data (C4)\<close>

text \<open>
  C4, as amended. When a new byte is needed with \<open>sub_len = 0\<close> and the length byte
  read is zero, nothing fails: the block that updates the byte takes the byte after the
  length byte as data and \<open>sub_len\<close> wraps round to 255. So \<open>get_key\<close>, asked at a
  byte boundary for a code of at most eight bits, returns the low bits of that data byte,
  and decoding goes on.
\<close>

theorem get_key_zero_length_byte:
  assumes "offset (fd gif) + 2 \<le> length (content (fd gif))"
    and "content (fd gif) ! offset (fd gif) = 0"
  shows "update_byte gif 0 byte0 =
           (gif\<lparr>fd := (fd gif)\<lparr>offset := offset (fd gif) + 2\<rparr>\<rparr>, 255,
            content (fd gif) ! (offset (fd gif) + 1)) \<and>
         (0 < ksz \<and> ksz \<le> 8 \<longrightarrow>
          get_key gif ksz 0 0 byte0 =
            Inr (unat (content (fd gif) ! (offset (fd gif) + 1)) mod 2 ^ ksz,
                 gif\<lparr>fd := (fd gif)\<lparr>offset := offset (fd gif) + 2\<rparr>\<rparr>,
                 255, of_nat (ksz mod 8), content (fd gif) ! (offset (fd gif) + 1)))"
proof (intro conjI impI)
  let ?b = "content (fd gif) ! (offset (fd gif) + 1)"
  let ?g = "gif\<lparr>fd := (fd gif)\<lparr>offset := offset (fd gif) + 2\<rparr>\<rparr>"
  show u: "update_byte gif 0 byte0 = (?g, 255, ?b)"
    using assms by (simp add: update_byte_def read_byte_avail)
  assume k: "0 < ksz \<and> ksz \<le> 8"
  have b: "unat ?b < 256"
    using unsigned_less [of ?b, where 'a = nat] by simp
  have l1: "get_key_loop gif ksz 0 0 byte0 0 0 = Inr (unat ?b, ?g, 255, ?b)"
    apply (subst get_key_loop.simps)
    using assms k b apply (simp add: u Let_def fragment_def int_ok_def min_def)
    apply (subst get_key_loop.simps)
    apply simp
    done
  show "get_key gif ksz 0 0 byte0 = Inr (unat ?b mod 2 ^ ksz, ?g, 255, of_nat (ksz mod 8), ?b)"
    using k by (simp add: get_key_def l1 and_mask_nat [simplified])
qed

theorem get_key_zero_length_byte_witness:
  "offset (fd (decoder_on [0x00, 0x0D])) + 2 \<le> length (content (fd (decoder_on [0x00, 0x0D]))) \<and>
   content (fd (decoder_on [0x00, 0x0D])) ! offset (fd (decoder_on [0x00, 0x0D])) = 0 \<and>
   update_byte (decoder_on [0x00, 0x0D]) 0 0 =
     ((decoder_on [0x00, 0x0D])\<lparr>fd := \<lparr>content = [0x00, 0x0D], offset = 2\<rparr>\<rparr>, 255, 0x0D) \<and>
   (0::nat) < 3 \<and> (3::nat) \<le> 8 \<and>
   get_key (decoder_on [0x00, 0x0D]) 3 0 0 0 =
     Inr (5, (decoder_on [0x00, 0x0D])\<lparr>fd := \<lparr>content = [0x00, 0x0D], offset = 2\<rparr>\<rparr>, 255, 3, 0x0D)"
proof -
  have h: "offset (fd (decoder_on [0x00, 0x0D])) + 2 \<le> length (content (fd (decoder_on [0x00, 0x0D])))"
    "content (fd (decoder_on [0x00, 0x0D])) ! offset (fd (decoder_on [0x00, 0x0D])) = 0"
    by (simp_all add: decoder_on_def)
  show ?thesis
    using h get_key_zero_length_byte [OF h, of 0 3]
    by (simp add: decoder_on_def)
qed

text \<open>
  C4 as stated fails: in \<open>split_data\<close> the decoder reads the length byte zero in the middle
  of the second code, goes on, writes both pixels and returns 0.
\<close>

theorem zero_length_byte_not_rejected:
  "read_image_data generous (decoder_on split_data) 0 0 2 =
     Some (Inr (0, (decoder_on split_data)
                     \<lparr>fd := \<lparr>content = split_data, offset = 6\<rparr>, frame := [1, 1, 0, 0]\<rparr>))"
  by (simp add: run_simps split_data_def zero_gce_def zero_palette_def)

section \<open>Where a pixel goes (C7)\<close>

text \<open>
  C7. When the decoder stores the pixel with linear index \<open>p\<close> of an image whose rectangle
  starts at \<open>(x, y)\<close> and is \<open>w\<close> wide, the store goes to the flat raster offset
  \<open>(y + p div w) * width + (x + p mod w)\<close>, that is to row \<open>y + p div w\<close> and column
  \<open>x + p mod w\<close> of the raster of the logical screen, and changes nothing else.
  The code makes no difference between interlaced and other images.
\<close>

theorem put_pixel_cell:
  assumes "put_pixel gif x y w (int p) v = Inr gif'"
  shows "(y + p div w) * width gif + (x + p mod w) < length (frame gif) \<and>
         gif' = gif\<lparr>frame := (frame gif)[(y + p div w) * width gif + (x + p mod w) := v]\<rparr>"
proof -
  let ?i = "(y + p div w) * width gif + (x + p mod w)"
  from assms have w: "0 < w"
    by (auto simp: put_pixel_def frame_index_def split: if_splits)
  have d: "int p sdiv int w = int (p div w)"
    using w by (simp add: signed_divide_int_def zdiv_int sgn_if)
  have m: "int p smod int w = int (p mod w)"
    using w by (simp add: signed_modulo_int_def zmod_int sgn_if)
  have i: "(int y + int (p div w)) * int (width gif) + int x + int (p mod w) = int ?i"
    by simp
  from assms w have fi: "frame_index gif x y w (int p) = Inr (int ?i)"
    unfolding put_pixel_def frame_index_def Let_def d m i
    by (simp split: if_splits)
  from assms show ?thesis
    unfolding put_pixel_def fi
    by (simp split: if_splits del: of_nat_add of_nat_mult)
qed

theorem put_pixel_cell_witness:
  "put_pixel (decoder_on []) 1 0 1 (int 1) 7 = Inr ((decoder_on [])\<lparr>frame := [0, 0, 0, 7]\<rparr>) \<and>
   (0 + 1 div 1) * width (decoder_on []) + (1 + 1 mod 1) < length (frame (decoder_on [])) \<and>
   (decoder_on [])\<lparr>frame := [0, 0, 0, 7]\<rparr> =
     (decoder_on [])\<lparr>frame := (frame (decoder_on []))
        [(0 + 1 div 1) * width (decoder_on []) + (1 + 1 mod 1) := 7]\<rparr>"
proof -
  have h: "put_pixel (decoder_on []) 1 0 1 (int 1) 7 = Inr ((decoder_on [])\<lparr>frame := [0, 0, 0, 7]\<rparr>)"
    by (simp add: put_pixel_def frame_index_def int_ok_def decoder_on_def
        signed_divide_int_def signed_modulo_int_def)
  from put_pixel_cell [OF h] h show ?thesis
    by simp
qed

section \<open>Opening a file (C9)\<close>

text \<open>
  C9. The claim is that \<open>gd_open_gif\<close> returns an error when the version bytes are not
  \<open>89a\<close>. The code misses that: on a file with the version \<open>87a\<close> the function jumps
  to \<^verbatim>\<open>fail\<close> and returns the pointer \<^verbatim>\<open>gif\<close>, which has not been assigned
  yet. The result is the fault \<open>Uninitialised\<close>, an indeterminate pointer, and not
  \<open>Inr None\<close>, the return of NULL.
\<close>

theorem gd_open_gif_bad_version:
  "gd_open_gif al (Some gif87a) = Inl Uninitialised"
  by (simp add: gd_open_gif_def read_bytes_def gif87a_def)

section \<open>Extensions leave the canvas alone (C10)\<close>

lemma same_canvas_refl: "same_canvas g g"
  by (simp add: same_canvas_def)

lemma same_canvas_trans: "same_canvas g g1 \<Longrightarrow> same_canvas g1 g2 \<Longrightarrow> same_canvas g g2"
  by (simp add: same_canvas_def)

lemma same_canvas_fd: "same_canvas g (g\<lparr>fd := f\<rparr>)"
  by (simp add: same_canvas_def)

lemma discard_loop_canvas:
  assumes "discard_loop gif sz = Some r"
  shows "\<forall>gif'. r = Inr gif' \<longrightarrow> same_canvas gif gif'"
proof (rule discard_loop.raw_induct
         [where P = "\<lambda>gif sz r. \<forall>gif'. r = Inr gif' \<longrightarrow> same_canvas gif gif'", OF _ assms],
       goal_cases)
  case (1 f gif sz r)
  note IH = "1"(1) and body = "1"(2)
  show ?case
    using body
    by (auto simp: Let_def split: prod.splits option.splits if_splits
          dest!: IH intro: same_canvas_fd same_canvas_trans [OF same_canvas_fd])
qed

lemma discard_sub_blocks_canvas:
  "discard_sub_blocks gif = Some (Inr gif') \<Longrightarrow> same_canvas gif gif'"
  using discard_loop_canvas [of gif None "Inr gif'"] by (simp add: discard_sub_blocks_def)

lemma read_graphic_control_ext_canvas:
  "read_graphic_control_ext gif = Inr gif' \<Longrightarrow> same_canvas gif gif'"
  by (auto simp: read_graphic_control_ext_def same_canvas_def Let_def
        split: prod.splits option.splits sum.splits)

lemma read_application_ext_canvas:
  "read_application_ext gif = Some (Inr gif') \<Longrightarrow> same_canvas gif gif'"
  by (auto simp: read_application_ext_def Let_def
        split: prod.splits option.splits sum.splits if_splits
        dest!: discard_sub_blocks_canvas simp: same_canvas_def)

lemma read_ext_canvas:
  "read_ext gif = Some (Inr gif') \<Longrightarrow> same_canvas gif gif'"
  by (auto simp: read_ext_def read_plain_text_ext_def read_comment_ext_def Let_def
        split: prod.splits option.splits if_splits
        dest!: discard_sub_blocks_canvas read_graphic_control_ext_canvas read_application_ext_canvas
        simp: same_canvas_def)

lemma frame_loop_canvas:
  assumes "frame_loop al gif sep = Some r"
  shows "\<forall>gif'. r = Inr (0, gif') \<longrightarrow> same_canvas gif gif'"
proof (rule frame_loop.raw_induct
         [where P = "\<lambda>al gif sep r. \<forall>gif'. r = Inr (0, gif') \<longrightarrow> same_canvas gif gif'", OF _ assms],
       goal_cases)
  case (1 f al gif sep r)
  note IH = "1"(1) and body = "1"(2)
  show ?case
  proof (intro allI impI)
    fix gif' assume r: "r = Inr (0, gif')"
    show "same_canvas gif gif'"
    proof (cases "sep = 0x3B")
      case True
      with body r show ?thesis by (simp add: same_canvas_refl)
    next
      case False
      with body r obtain gif1 where e: "read_ext gif = Some (Inr gif1)"
        and rec: "f al (gif1\<lparr>fd := snd (read_byte (fd gif1))\<rparr>)
                    (case fst (read_byte (fd gif1)) of None \<Rightarrow> sep | Some b \<Rightarrow> b) = Some r"
        by (auto split: if_splits option.splits sum.splits prod.splits)
      from IH [OF rec] r have "same_canvas (gif1\<lparr>fd := snd (read_byte (fd gif1))\<rparr>) gif'"
        by simp
      with read_ext_canvas [OF e] show ?thesis
        by (simp add: same_canvas_def)
    qed
  qed
qed

text \<open>
  C10. A call of \<open>gd_get_frame\<close> that returns 0 leaves the raster, the palette pointer,
  both palettes and the screen size as they were; and an extension block that is read
  changes at most the graphic control fields, the loop count and the stream position.
\<close>

theorem extensions_keep_canvas:
  "(gd_get_frame al gif = Some (Inr (0, gif')) \<longrightarrow> same_canvas gif gif') \<and>
   (read_ext gif = Some (Inr gif'') \<longrightarrow> same_canvas gif gif'')"
proof (intro conjI impI)
  assume a: "gd_get_frame al gif = Some (Inr (0, gif'))"
  then obtain sep where "frame_loop al (gif\<lparr>fd := snd (read_byte (fd gif))\<rparr>) sep = Some (Inr (0, gif'))"
    by (auto simp: gd_get_frame_def split: prod.splits option.splits)
  from frame_loop_canvas [OF this] show "same_canvas gif gif'"
    by (simp add: same_canvas_def)
next
  assume "read_ext gif = Some (Inr gif'')"
  then show "same_canvas gif gif''"
    by (rule read_ext_canvas)
qed

theorem extensions_keep_canvas_witness:
  "gd_get_frame generous (decoder_on gce_then_trailer) =
     Some (Inr (0, (decoder_on gce_then_trailer)
                     \<lparr>fd := \<lparr>content = gce_then_trailer, offset = 9\<rparr>,
                      gce := \<lparr>delay = 10, tindex = 7, disposal = 1, input = 0,
                              transparency = 1\<rparr>\<rparr>)) \<and>
   same_canvas (decoder_on gce_then_trailer)
     ((decoder_on gce_then_trailer)
        \<lparr>fd := \<lparr>content = gce_then_trailer, offset = 9\<rparr>,
         gce := \<lparr>delay = 10, tindex = 7, disposal = 1, input = 0, transparency = 1\<rparr>\<rparr>) \<and>
   read_ext ((decoder_on gce_then_trailer)\<lparr>fd := \<lparr>content = gce_then_trailer, offset = 1\<rparr>\<rparr>) =
     Some (Inr ((decoder_on gce_then_trailer)
                  \<lparr>fd := \<lparr>content = gce_then_trailer, offset = 8\<rparr>,
                   gce := \<lparr>delay = 10, tindex = 7, disposal = 1, input = 0,
                           transparency = 1\<rparr>\<rparr>)) \<and>
   same_canvas ((decoder_on gce_then_trailer)\<lparr>fd := \<lparr>content = gce_then_trailer, offset = 1\<rparr>\<rparr>)
     ((decoder_on gce_then_trailer)
        \<lparr>fd := \<lparr>content = gce_then_trailer, offset = 8\<rparr>,
         gce := \<lparr>delay = 10, tindex = 7, disposal = 1, input = 0, transparency = 1\<rparr>\<rparr>)"
proof -
  let ?g = "decoder_on gce_then_trailer"
  let ?gce = "\<lparr>delay = 10, tindex = 7, disposal = 1, input = 0, transparency = 1\<rparr>"
  have e: "read_ext (?g\<lparr>fd := \<lparr>content = gce_then_trailer, offset = 1\<rparr>\<rparr>) =
           Some (Inr (?g\<lparr>fd := \<lparr>content = gce_then_trailer, offset = 8\<rparr>, gce := ?gce\<rparr>))"
    by (simp add: read_ext_def read_graphic_control_ext_def lseek_cur_def read_byte_def
        read_num_def read_bytes_def decoder_on_def gce_then_trailer_def zero_gce_def Let_def)
  have f: "gd_get_frame generous ?g =
           Some (Inr (0, ?g\<lparr>fd := \<lparr>content = gce_then_trailer, offset = 9\<rparr>, gce := ?gce\<rparr>))"
    by (simp add: gd_get_frame_def frame_loop.simps read_ext_def read_graphic_control_ext_def
        lseek_cur_def read_byte_def read_num_def read_bytes_def decoder_on_def
        gce_then_trailer_def zero_gce_def Let_def)
  from extensions_keep_canvas
         [of generous ?g "?g\<lparr>fd := \<lparr>content = gce_then_trailer, offset = 9\<rparr>, gce := ?gce\<rparr>"]
       extensions_keep_canvas
         [of _ "?g\<lparr>fd := \<lparr>content = gce_then_trailer, offset = 1\<rparr>\<rparr>" _
             "?g\<lparr>fd := \<lparr>content = gce_then_trailer, offset = 8\<rparr>, gce := ?gce\<rparr>"]
       e f
  show ?thesis
    by blast
qed

section \<open>The loop body, case by case\<close>

lemma store_entry_result:
  assumes "store_entry t e = Inr (r, t')"
  shows "nentries t < bulk t \<and> bulk t' = bulk t \<and> nentries t' = Suc (nentries t) \<and>
         entries t' = (entries t)(nentries t := e) \<and>
         r = (if nentries t' AND (nentries t' - 1) = 0 then 1 else 0)"
  using assms by (auto simp: store_entry_def Let_def split: if_splits)

lemma add_entry_result:
  assumes "add_entry al t len pre suf = Inr (r, t')" and "r \<noteq> - 1"
  shows "nentries t < bulk t' \<and> bulk t \<le> bulk t' \<and> nentries t' = Suc (nentries t) \<and>
         entries t' = (entries t)(nentries t := \<lparr>length_e = len, prefix_e = pre, suffix_e = suf\<rparr>) \<and>
         r = (if nentries t' AND (nentries t' - 1) = 0 then 1 else 0)"
  using assms
  by (auto simp: add_entry_def Let_def split: if_splits dest!: store_entry_result)

lemma lzw_head_cases:
  assumes "lzw_head al s = Inr (Some s1)"
  obtains
    (reset) "key s = clear s"
      "s1 = s\<lparr>key_size := init_key_size s,
               table := (table s)\<lparr>nentries := 2 ^ (init_key_size s - 1) + 2\<rparr>,
               table_is_full := Some False\<rparr>"
  | (full) "key s \<noteq> clear s" "table_is_full s = Some True" "s1 = s"
  | (add) l e r t' where "key s \<noteq> clear s" "table_is_full s = Some False"
      "str_len s = Some l" "entry s = Some e"
      "add_entry al (table s) ((l + 1) mod 65536) (key s) (suffix_e e) = Inr (r, t')"
      "r \<noteq> - 1"
      "s1 = (if nentries t' = 0x1000
             then s\<lparr>table := t', ret := 0, table_is_full := Some True\<rparr>
             else s\<lparr>table := t', ret := r\<rparr>)"
  using assms
  by (auto simp: lzw_head_def split: if_splits option.splits bool.splits sum.splits prod.splits)

lemma patch_suffix_cases:
  assumes "patch_suffix k s = Inr s'"
  obtains
    (same) "s' = s" "\<not> (k + 1 < nentries (table s) \<and> table_is_full s = Some False)"
  | (patched) e where "k + 1 < nentries (table s)" "table_is_full s = Some False"
      "entry s = Some e" "nentries (table s) - 1 < bulk (table s)"
      "s' = s\<lparr>table := (table s)\<lparr>entries :=
              (entries (table s))(nentries (table s) - 1 :=
                 (entries (table s) (nentries (table s) - 1))\<lparr>suffix_e := suffix_e e\<rparr>)\<rparr>\<rparr>"
proof (cases "k + 1 < nentries (table s) \<and> table_is_full s = Some False")
  case False
  with assms have "s' = s"
    by (cases "table_is_full s") (auto simp: patch_suffix_def split: if_splits)
  with False show thesis
    by (rule same [rotated])
next
  case True
  with assms obtain e where e: "entry s = Some e"
    by (cases "entry s") (auto simp: patch_suffix_def)
  from assms True e have b: "nentries (table s) - 1 < bulk (table s)"
    by (auto simp: patch_suffix_def Let_def split: if_splits)
  from assms True e b show thesis
    by (intro patched [of e]) (auto simp: patch_suffix_def Let_def)
qed

lemma lzw_iter_cases:
  assumes "lzw_iter al x y w gif s = Some (Inr (Continue gif' s'))"
  obtains
    (cleared) s1 sl sh b where "lzw_head al s = Inr (Some s1)"
      "get_key gif (key_size s1) (sub_len s1) (shift s1) (byte s1) = Inr (clear s1, gif', sl, sh, b)"
      "s' = s1\<lparr>key := clear s1, sub_len := sl, shift := sh, byte := b\<rparr>"
  | (emitted) s1 k gif1 sl sh b e' log where "lzw_head al s = Inr (Some s1)"
      "get_key gif (key_size s1) (sub_len s1) (shift s1) (byte s1) = Inr (k, gif1, sl, sh, b)"
      "k \<noteq> clear s1" "k \<noteq> stop s1" "k < bulk (table s1)"
      "write_string gif1 (table s1) x y w (frm_off s1) (entries (table s1) k) [] =
         Some (Inr (gif', e', log))"
      "patch_suffix k (looked_up s1 k sl sh b e' log) = Inr s'"
proof -
  from assms obtain s1 where h: "lzw_head al s = Inr (Some s1)"
    by (cases "lzw_head al s") (auto simp: lzw_iter_def split: option.splits)
  from assms h obtain k gif1 sl sh b
    where g: "get_key gif (key_size s1) (sub_len s1) (shift s1) (byte s1) = Inr (k, gif1, sl, sh, b)"
    by (cases "get_key gif (key_size s1) (sub_len s1) (shift s1) (byte s1)")
       (auto simp: lzw_iter_def)
  show thesis
  proof (cases "k = clear s1")
    case True
    with assms h g have "gif' = gif1" "s' = s1\<lparr>key := clear s1, sub_len := sl, shift := sh, byte := b\<rparr>"
      by (simp_all add: lzw_iter_def Let_def)
    with h g True show thesis
      by (intro cleared [of s1 sl sh b]) simp_all
  next
    case False
    with assms h g have ns: "k \<noteq> stop s1"
      by (auto simp: lzw_iter_def Let_def split: if_splits)
    from assms h g False ns have bk: "k < bulk (table s1)"
      by (auto simp: lzw_iter_def Let_def split: if_splits)
    let ?ws = "write_string gif1 (table s1) x y w (frm_off s1) (entries (table s1) k) []"
    from assms h g False ns bk obtain gif2 e' log where ws: "?ws = Some (Inr (gif2, e', log))"
      by (cases ?ws) (auto simp: lzw_iter_def Let_def split: if_splits sum.splits)
    from assms h g False ns bk ws
    have "gif' = gif2 \<and> patch_suffix k (looked_up s1 k sl sh b e' log) = Inr s'"
      by (auto simp: lzw_iter_def Let_def looked_up_def split: if_splits sum.splits)
    with h g False ns bk ws show thesis
      by (intro emitted [of s1 k gif1 sl sh b e' log]) simp_all
  qed
qed


section \<open>What every session keeps\<close>

lemma lzw_head_keeps:
  assumes "lzw_head al s = Inr (Some s1)"
  shows "init_key_size s1 = init_key_size s \<and> clear s1 = clear s \<and> stop s1 = stop s \<and>
         key s1 = key s \<and> frm_off s1 = frm_off s \<and> str_len s1 = str_len s \<and>
         entry s1 = entry s \<and> emitted s1 = emitted s \<and> written s1 = written s"
  using assms by (cases rule: lzw_head_cases) (auto split: if_splits)

lemma lzw_iter_after_head:
  assumes "lzw_iter al x y w gif s = Some (Inr (Continue gif' s'))"
  obtains s1 where "lzw_head al s = Inr (Some s1)"
    "nentries (table s') = nentries (table s1)" "bulk (table s') = bulk (table s1)"
    "table_is_full s' = table_is_full s1" "init_key_size s' = init_key_size s1"
    "clear s' = clear s1" "stop s' = stop s1" "ret s' = ret s1"
    "key s' \<noteq> clear s' \<longrightarrow> key s' \<noteq> stop s'"
    "key_size s' = (if key s' \<noteq> clear s' \<and> ret s1 = 1 then key_size s1 + 1 else key_size s1)"
  using assms
proof (cases rule: lzw_iter_cases)
  case (cleared s1 sl sh b)
  then show ?thesis
    by (intro that [of s1]) simp_all
next
  case (emitted s1 k gif1 sl sh b e' log)
  from emitted(7) show ?thesis
  proof (cases rule: patch_suffix_cases)
    case same
    with emitted show ?thesis
      by (intro that [of s1]) (simp_all add: looked_up_def)
  next
    case (patched e)
    with emitted show ?thesis
      by (intro that [of s1]) (simp_all add: looked_up_def)
  qed
qed

lemma lzw_iter_init_key_size:
  assumes "lzw_iter al x y w gif s = Some (Inr (Continue gif' s'))"
  shows "init_key_size s' = init_key_size s \<and> clear s' = clear s \<and> stop s' = stop s"
  using assms by (cases rule: lzw_iter_after_head) (simp add: lzw_head_keeps)

lemma lzw_start_fields:
  assumes "lzw_start al gif0 = Inr (gif, s)"
  shows "1 \<le> init_key_size s \<and> init_key_size s \<le> 31 \<and> key_size s = init_key_size s \<and>
         clear s = 2 ^ (init_key_size s - 1) mod 65536 \<and> stop s = (clear s + 1) mod 65536 \<and>
         table_is_full s = None \<and> ret s = 0 \<and> frm_off s = 0 \<and>
         table s = \<lparr>bulk = max (2 ^ init_key_size s) 0x100,
                     nentries = 2 ^ (init_key_size s - 1) + 2,
                     entries = fill_literals (2 ^ (init_key_size s - 1)) (junk al)\<rparr>"
  using assms
  by (auto simp: lzw_start_def new_table_def Let_def
        split: prod.splits option.splits if_splits sum.splits)

lemma pow_le_2048: "k \<le> 11 \<Longrightarrow> (2::nat) ^ k \<le> 2048"
  using power_increasing [of k 11 "2::nat"] by simp

lemma size_inv_start:
  assumes "lzw_start al gif0 = Inr (gif, s)" and "init_key_size s \<le> 12"
  shows "size_inv s"
proof -
  from lzw_start_fields [OF assms(1)]
  have f: "1 \<le> init_key_size s" "table_is_full s = None"
    "nentries (table s) = 2 ^ (init_key_size s - 1) + 2"
    by simp_all
  from assms(2) have "init_key_size s - 1 \<le> 11"
    by simp
  then have "(2::nat) ^ (init_key_size s - 1) \<le> 2048"
    by (rule pow_le_2048)
  with f assms(2) show ?thesis
    by (simp add: size_inv_def)
qed

lemma size_inv_head:
  assumes "size_inv s" and "lzw_head al s = Inr (Some s1)"
  shows "size_inv s1"
  using assms(2)
proof (cases rule: lzw_head_cases)
  case reset
  from assms(1) have "init_key_size s \<le> 12"
    by (simp add: size_inv_def)
  then have "init_key_size s - 1 \<le> 11"
    by simp
  then have "(2::nat) ^ (init_key_size s - 1) \<le> 2048"
    by (rule pow_le_2048)
  with assms(1) reset show ?thesis
    by (simp add: size_inv_def)
next
  case full
  with assms(1) show ?thesis by simp
next
  case (add l e r t')
  from add_entry_result [OF add(5,6)] have "nentries t' = Suc (nentries (table s))"
    by simp
  with assms(1) add show ?thesis
    by (auto simp: size_inv_def)
qed

lemma size_inv_round:
  assumes "size_inv s" and "lzw_iter al x y w gif s = Some (Inr (Continue gif' s'))"
  shows "size_inv s'"
  using assms(2)
proof (cases rule: lzw_iter_after_head)
  case (1 s1)
  with size_inv_head [OF assms(1) 1(1)] show ?thesis
    by (simp add: size_inv_def)
qed

lemma visits_size_inv:
  assumes "visits ok al x y w gif0 gif s"
  shows "init_key_size s \<le> 12 \<longrightarrow> size_inv s"
  using assms
proof (induction rule: visits.induct)
  case (first gif s)
  then show ?case by (simp add: size_inv_start)
next
  case (round gif s gif' s')
  then show ?case
    using lzw_iter_init_key_size [OF round(2)] by (auto intro: size_inv_round)
qed


section \<open>Powers of two and the width of the codes\<close>

lemma and_pred_zero_pow2:
  fixes n :: nat
  assumes "0 < n" and "n AND (n - 1) = 0"
  shows "\<exists>j. n = 2 ^ j"
  using assms
proof (induction n rule: less_induct)
  case (less n)
  show ?case
  proof (cases "even n")
    case True
    then obtain m where m: "n = 2 * m" by (auto elim: evenE)
    with less.prems have m0: "0 < m" by simp
    from m0 have h: "(2 * m - Suc 0) div 2 = m - Suc 0" by arith
    have "n AND (n - 1) = 2 * (m AND (m - 1))"
      unfolding m by (subst and_rec) (simp add: h)
    with less.prems have "m AND (m - 1) = 0" by simp
    with less.IH [of m] m m0 obtain j where "m = 2 ^ j" by auto
    with m have "n = 2 ^ Suc j" by simp
    then show ?thesis ..
  next
    case False
    then obtain m where m: "n = 2 * m + 1" by (auto elim: oddE)
    have "n AND (n - 1) = 2 * (m AND m)"
      using m by (subst and_rec) simp
    with less.prems have "m = 0" by simp
    with m have "n = 2 ^ 0" by simp
    then show ?thesis ..
  qed
qed

lemma grow_width_bound:
  fixes n ks :: nat
  assumes "n AND (n - 1) = 0" and "2 ^ (ks - 1) < n" and "n < 4096"
  shows "ks \<le> 11 \<and> 2 ^ ks \<le> n"
proof -
  from assms have "0 < n" by (cases n) auto
  from and_pred_zero_pow2 [OF this assms(1)] obtain j where j: "n = 2 ^ j" ..
  from assms(3) j have "(2::nat) ^ j < 2 ^ 12" by simp
  then have j12: "j < 12" by (simp only: power_strict_increasing_iff)
  from assms(2) j have "(2::nat) ^ (ks - 1) < 2 ^ j" by simp
  then have "ks - 1 < j" by (simp only: power_strict_increasing_iff)
  then have kj: "ks \<le> j" by simp
  then have "(2::nat) ^ ks \<le> 2 ^ j" by (intro power_increasing) simp_all
  with j j12 kj show ?thesis by simp
qed

lemma width_inv_start:
  assumes "lzw_start al gif0 = Inr (gif, s)" and "init_key_size s \<le> 12"
  shows "width_inv s"
  using lzw_start_fields [OF assms(1)] size_inv_start [OF assms] assms(2)
  by (simp add: width_inv_def)

lemma width_inv_round:
  assumes "width_inv s" and "no_stale_ret s"
    and "lzw_iter al x y w gif s = Some (Inr (Continue gif' s'))"
  shows "width_inv s'"
  using assms(3)
proof (cases rule: lzw_iter_after_head)
  case (1 s1)
  from assms(1) have si: "size_inv s" by (simp add: width_inv_def)
  from size_inv_round [OF si assms(3)] have si': "size_inv s'" .
  from size_inv_head [OF si 1(1)] have si1: "size_inv s1" .
  have "init_key_size s1 \<le> key_size s1 \<and> key_size s1 \<le> 12 \<and> 
        (table_is_full s1 = Some True \<longrightarrow> ret s1 \<noteq> 1) \<and>
        (ret s1 = 1 \<longrightarrow> key_size s1 \<le> 11 \<and> 2 ^ key_size s1 \<le> nentries (table s1)) \<and>
        2 ^ (key_size s1 - 1) \<le> nentries (table s1)"
    using 1(1)
  proof (cases rule: lzw_head_cases)
    case reset
    with assms(1,2) show ?thesis
      by (simp add: width_inv_def no_stale_ret_def size_inv_def)
  next
    case full
    with assms(1) show ?thesis
      by (simp add: width_inv_def)
  next
    case (add l e r t')
    note r = add_entry_result [OF add(5,6)]
    from r have n: "nentries t' = Suc (nentries (table s))" by simp
    from assms(1) add have lo: "2 ^ (key_size s - 1) < nentries t'"
      by (simp add: width_inv_def n)
    show ?thesis
    proof (cases "nentries t' = 0x1000")
      case True
      with add assms(1) lo show ?thesis
        by (simp add: width_inv_def)
    next
      case False
      from si add have "nentries (table s) < 4096"
        by (auto simp: size_inv_def)
      with n False have lt: "nentries t' < 4096" by simp
      have "r = 1 \<longrightarrow> key_size s \<le> 11 \<and> 2 ^ key_size s \<le> nentries t'"
        using r grow_width_bound [OF _ lo lt] by (auto split: if_splits)
      with False add assms(1) lo show ?thesis
        by (simp add: width_inv_def)
    qed
  qed
  with 1 si' lzw_head_keeps [OF 1(1)] assms(1) show ?thesis
    by (auto simp: width_inv_def)
qed


section \<open>Good tables and the inner loop\<close>

lemma good_table_literal:
  "good_table cl t \<Longrightarrow> c < cl \<Longrightarrow>
   length_e (entries t c) = 1 \<and> prefix_e (entries t c) = 0xFFF"
  by (simp add: good_table_def)

lemma good_table_composed:
  assumes "good_table cl t" and "good_code cl t c" and "cl \<le> c"
  shows "good_code cl t (prefix_e (entries t c)) \<and> prefix_e (entries t c) < c \<and>
         prefix_e (entries t c) \<noteq> 0xFFF \<and> prefix_e (entries t c) < bulk t \<and>
         length_e (entries t c) = length_e (entries t (prefix_e (entries t c))) + 1"
proof -
  from assms have c: "cl + 2 \<le> c" "c < nentries t"
    by (auto simp: good_code_def)
  with assms(1) have p: "prefix_e (entries t c) < c" "prefix_e (entries t c) \<noteq> cl"
    "prefix_e (entries t c) \<noteq> cl + 1"
    "length_e (entries t c) = length_e (entries t (prefix_e (entries t c))) + 1"
    by (auto simp: good_table_def)
  from assms(1) c have "c < 4096" "nentries t \<le> bulk t"
    by (auto simp: good_table_def)
  with p c show ?thesis
    by (auto simp: good_code_def)
qed

lemma chain_good:
  assumes "good_table cl t" and "good_code cl t c"
  shows "1 \<le> length_e (entries t c) \<and> length_e (entries t c) \<le> c + 1 \<and>
         chain_of t c \<noteq> [] \<and>
         map length_e (chain_of t c) = rev [1..<length_e (entries t c) + 1] \<and>
         prefix_e (last (chain_of t c)) = 0xFFF"
  using assms(2)
proof (induction c rule: less_induct)
  case (less c)
  show ?case
  proof (cases "c < cl")
    case True
    from good_table_literal [OF assms(1) True] show ?thesis
      by (simp add: chain_of_def)
  next
    case False
    then have "cl \<le> c" by simp
    note g = good_table_composed [OF assms(1) less.prems this]
    let ?p = "prefix_e (entries t c)"
    from g less.IH [of ?p] have ih: "1 \<le> length_e (entries t ?p)"
      "length_e (entries t ?p) \<le> ?p + 1" "chain_of t ?p \<noteq> []"
      "map length_e (chain_of t ?p) = rev [1..<length_e (entries t ?p) + 1]"
      "prefix_e (last (chain_of t ?p)) = 0xFFF"
      by simp_all
    from g have ch: "chain_of t c = entries t c # chain_of t ?p"
      by (simp add: chain_of_def)
    from g ih show ?thesis
      by (simp add: ch)
  qed
qed

lemma chain_of_composed:
  assumes "good_table cl t" and "good_code cl t c" and "cl \<le> c"
  shows "chain_of t c = entries t c # chain_of t (prefix_e (entries t c))"
  using good_table_composed [OF assms] by (simp add: chain_of_def)

lemma chain_of_literal:
  assumes "good_table cl t" and "c < cl"
  shows "chain_of t c = [entries t c]"
  using good_table_literal [OF assms] by (simp add: chain_of_def)

lemma chain_of_agree:
  assumes "good_table cl t" and "good_code cl t c"
    and "\<forall>i \<le> c. entries t' i = entries t i"
  shows "chain_of t' c = chain_of t c"
  using assms(2,3)
proof (induction c rule: less_induct)
  case (less c)
  from less.prems have e: "entries t' c = entries t c" by simp
  show ?case
  proof (cases "c < cl")
    case True
    from good_table_literal [OF assms(1) True] show ?thesis
      by (simp add: chain_of_def e)
  next
    case False
    then have "cl \<le> c" by simp
    note g = good_table_composed [OF assms(1) less.prems(1) this]
    let ?p = "prefix_e (entries t c)"
    from g less.prems have "chain_of t' ?p = chain_of t ?p"
      by (intro less.IH) auto
    moreover from g less.prems have "entries t' ?p = entries t ?p" by simp
    ultimately show ?thesis
      using g by (simp add: chain_of_def e)
  qed
qed

lemma write_string_good:
  assumes "good_table cl t" and "good_code cl t c"
  shows "\<exists>r. write_string gif t x y w f (entries t c) log0 = Some r \<and>
           (\<forall>gif' e' log. r = Inr (gif', e', log) \<longrightarrow>
              log = log0 @ writes_of f (chain_of t c) \<and> e' = last (chain_of t c))"
  using assms(2)
proof (induction c arbitrary: gif log0 rule: less_induct)
  case (less c)
  let ?e = "entries t c"
  let ?p = "int f + int (length_e ?e) - 1"
  show ?case
  proof (cases "int_ok (int f + int (length_e ?e))")
    case False
    then show ?thesis
      by (subst write_string.simps) simp
  next
    case ok: True
    show ?thesis
    proof (cases "put_pixel gif x y w ?p (suffix_e ?e)")
      case (Inl err)
      with ok show ?thesis
        by (subst write_string.simps) (simp add: Let_def)
    next
      case (Inr gif1)
      show ?thesis
      proof (cases "c < cl")
        case True
        note l = good_table_literal [OF assms(1) True]
        from ok Inr l show ?thesis
          by (subst write_string.simps)
             (simp add: Let_def chain_of_literal [OF assms(1) True] writes_of_def)
      next
        case False
        then have cl: "cl \<le> c" by simp
        note g = good_table_composed [OF assms(1) less.prems cl]
        let ?q = "prefix_e ?e"
        from g less.IH [of ?q gif1 "log0 @ [(?p, suffix_e ?e)]"]
        obtain r where r: "write_string gif1 t x y w f (entries t ?q) (log0 @ [(?p, suffix_e ?e)]) = Some r"
          and rr: "\<forall>gif' e' log. r = Inr (gif', e', log) \<longrightarrow>
              log = (log0 @ [(?p, suffix_e ?e)]) @ writes_of f (chain_of t ?q) \<and>
              e' = last (chain_of t ?q)"
          by blast
        have ws: "write_string gif t x y w f ?e log0 = Some r"
          using ok Inr g r by (subst write_string.simps) (simp add: Let_def)
        from chain_good [OF assms(1)] g have ne: "chain_of t ?q \<noteq> []" by simp
        from rr ne show ?thesis
          by (simp add: ws chain_of_composed [OF assms(1) less.prems cl] writes_of_def)
      qed
    qed
  qed
qed


section \<open>The table stays good\<close>

lemma good_table_add:
  assumes "good_table cl t" and "good_code cl t k" and "nentries t < 4096"
    and "nentries t' = Suc (nentries t)" and "nentries t < bulk t'"
    and "entries t' = (entries t)(nentries t := e)"
    and "prefix_e e = k" and "length_e e = length_e (entries t k) + 1"
  shows "good_table cl t'"
proof -
  let ?n = "nentries t"
  from assms(1) have n: "cl + 2 \<le> ?n" by (simp add: good_table_def)
  from assms(2) have k: "k < ?n" "k \<noteq> cl" "k \<noteq> cl + 1" by (simp_all add: good_code_def)
  have lit: "\<forall>i < cl. length_e (entries t' i) = 1 \<and> prefix_e (entries t' i) = 0xFFF"
    using assms(1,6) n by (simp add: good_table_def)
  have comp: "prefix_e (entries t' i) < i \<and> prefix_e (entries t' i) \<noteq> cl \<and>
        prefix_e (entries t' i) \<noteq> cl + 1 \<and>
        length_e (entries t' i) = length_e (entries t' (prefix_e (entries t' i))) + 1"
    if i: "cl + 2 \<le> i" "i < nentries t'" for i
  proof (cases "i = ?n")
    case True
    with k assms(6,7,8) show ?thesis by simp
  next
    case False
    with i assms(4) have lt: "i < ?n" by simp
    with assms(1) i have p: "prefix_e (entries t i) < i" "prefix_e (entries t i) \<noteq> cl"
      "prefix_e (entries t i) \<noteq> cl + 1"
      "length_e (entries t i) = length_e (entries t (prefix_e (entries t i))) + 1"
      by (auto simp: good_table_def)
    with lt assms(6) show ?thesis by simp
  qed
  from n assms(3,4,5) lit comp show ?thesis
    by (simp add: good_table_def)
qed

lemma good_table_patch:
  assumes "good_table cl t" and "nentries t' = nentries t" and "bulk t' = bulk t"
    and "entries t' = (entries t)(j := (entries t j)\<lparr>suffix_e := v\<rparr>)"
  shows "good_table cl t'"
proof -
  have "length_e (entries t' i) = length_e (entries t i)"
    "prefix_e (entries t' i) = prefix_e (entries t i)" for i
    using assms(4) by simp_all
  with assms(1,2,3) show ?thesis
    by (simp add: good_table_def)
qed

lemma good_table_reset:
  assumes "good_table cl t"
  shows "good_table cl (t\<lparr>nentries := cl + 2\<rparr>)"
  using assms by (simp add: good_table_def)

lemma table_inv_start:
  assumes "lzw_start al gif0 = Inr (gif, s)" and "init_key_size s \<le> 12"
  shows "table_inv s"
proof -
  note f = lzw_start_fields [OF assms(1)]
  let ?k = "init_key_size s - 1"
  from assms(2) have "?k \<le> 11" by simp
  then have p: "(2::nat) ^ ?k \<le> 2048" by (rule pow_le_2048)
  from f have i: "init_key_size s = Suc ?k" by simp
  have b: "(2::nat) ^ ?k + 2 \<le> max (2 ^ init_key_size s) 256"
  proof (cases "?k = 0")
    case True
    then show ?thesis by simp
  next
    case False
    then have "(2::nat) ^ 1 \<le> 2 ^ ?k" by (intro power_increasing) simp_all
    then show ?thesis by (subst i) simp
  qed
  from f p have c: "clear s = 2 ^ ?k" "stop s = clear s + 1" by simp_all
  from f b p have "good_table (clear s) (table s)"
    by (simp add: good_table_def c fill_literals_apply literal_def)
  with c f size_inv_start [OF assms] show ?thesis
    by (simp add: table_inv_def)
qed

lemma table_inv_head:
  assumes "table_inv s" and "lzw_head al s = Inr (Some s1)"
  shows "good_table (clear s) (table s1) \<and>
         (key s \<noteq> clear s \<and> table_is_full s = Some False \<longrightarrow>
            nentries (table s1) = Suc (nentries (table s)) \<and>
            entries (table s1) = (entries (table s))(nentries (table s) :=
                \<lparr>length_e = length_e (entries (table s) (key s)) + 1, prefix_e = key s,
                 suffix_e = suffix_e (last (chain_of (table s) (key s)))\<rparr>))"
  using assms(2)
proof (cases rule: lzw_head_cases)
  case reset
  from assms(1) have gt: "good_table (clear s) (table s)"
    and c: "clear s = 2 ^ (init_key_size s - 1)"
    unfolding table_inv_def by blast+
  from reset have "table s1 = (table s)\<lparr>nentries := clear s + 2\<rparr>"
    by (simp add: c)
  with good_table_reset [OF gt] reset(1) show ?thesis
    by simp
next
  case full
  from assms(1) have "good_table (clear s) (table s)"
    unfolding table_inv_def by blast
  with full show ?thesis by simp
next
  case (add l e r t')
  from assms(1) add have gt: "good_table (clear s) (table s)"
    and k: "key s < nentries (table s)" "key s \<noteq> stop s" "stop s = clear s + 1"
    and l: "l = length_e (entries (table s) (key s))"
    and e: "e = last (chain_of (table s) (key s))"
    and lt: "nentries (table s) < 4096"
    unfolding table_inv_def size_inv_def by auto
  from k add have gc: "good_code (clear s) (table s) (key s)"
    by (simp add: good_code_def)
  from chain_good [OF gt gc] k gt have "l + 1 < 65536"
    by (simp add: l good_table_def)
  then have m: "(l + 1) mod 65536 = l + 1" by simp
  let ?new = "\<lparr>length_e = l + 1, prefix_e = key s, suffix_e = suffix_e e\<rparr>"
  from add_entry_result [OF add(5,6), unfolded m]
  have n': "nentries t' = Suc (nentries (table s))"
    and b': "nentries (table s) < bulk t'"
    and e': "entries t' = (entries (table s))(nentries (table s) := ?new)"
    by blast+
  have "good_table (clear s) t'"
    by (rule good_table_add [OF gt gc lt n' b' e']) (simp_all add: l)
  moreover from add have "table s1 = t'" by (simp split: if_splits)
  ultimately show ?thesis
    using n' e' add by (simp add: l e)
qed


lemma round_emitted:
  assumes "table_inv s" and "lzw_head al s = Inr (Some s1)"
    and "k \<noteq> clear s1" and "k \<noteq> stop s1" and "k < nentries (table s1)"
    and "write_string gif1 (table s1) x y w (frm_off s1) (entries (table s1) k) [] =
           Some (Inr (gif', e', log))"
    and "patch_suffix k (looked_up s1 k sl sh b e' log) = Inr s'"
  shows "key s' = k \<and> good_table (clear s) (table s') \<and>
         nentries (table s') = nentries (table s1) \<and>
         entries (table s') k = entries (table s1) k \<and>
         chain_of (table s') k = chain_of (table s1) k \<and>
         emitted s' = writes_of (frm_off s) (chain_of (table s1) k) \<and>
         entry s' = Some (last (chain_of (table s1) k)) \<and>
         str_len s' = Some (length_e (entries (table s1) k)) \<and>
         frm_off s' = frm_off s + length_e (entries (table s1) k) \<and>
         table_is_full s' = table_is_full s1 \<and> table_is_full s1 \<noteq> None"
proof -
  note hk = lzw_head_keeps [OF assms(2)]
  from assms(1) have st: "stop s = clear s + 1"
    unfolding table_inv_def by blast
  from table_inv_head [OF assms(1,2)] have gt1: "good_table (clear s) (table s1)"
    by simp
  from assms(3,4,5) hk st have gc: "good_code (clear s) (table s1) k"
    by (simp add: good_code_def)
  from write_string_good [OF gt1 gc, of gif1 x y w "frm_off s1" "[]"] assms(6)
  have log: "log = writes_of (frm_off s1) (chain_of (table s1) k)"
    and e': "e' = last (chain_of (table s1) k)"
    by auto
  have tif: "table_is_full s1 \<noteq> None"
    using assms(2) by (cases rule: lzw_head_cases) (auto split: if_splits)
  let ?u = "looked_up s1 k sl sh b e' log"
  have u: "key ?u = k" "table ?u = table s1" "emitted ?u = log" "entry ?u = Some e'"
    "str_len ?u = Some (length_e (entries (table s1) k))"
    "frm_off ?u = frm_off s1 + length_e (entries (table s1) k)"
    "table_is_full ?u = table_is_full s1"
    by (simp_all add: looked_up_def)
  from assms(7) show ?thesis
  proof (cases rule: patch_suffix_cases)
    case same
    with u gt1 log e' hk tif show ?thesis by simp
  next
    case (patched e)
    let ?j = "nentries (table s1) - 1"
    from patched u have kj: "k < ?j" by simp
    from patched u have t': "nentries (table s') = nentries (table s1)"
      "bulk (table s') = bulk (table s1)"
      "entries (table s') = (entries (table s1))(?j := (entries (table s1) ?j)\<lparr>suffix_e := suffix_e e\<rparr>)"
      by simp_all
    have gt': "good_table (clear s) (table s')"
      by (rule good_table_patch [OF gt1 t'])
    from t' kj have "\<forall>i \<le> k. entries (table s') i = entries (table s1) i"
      by simp
    from chain_of_agree [OF gt1 gc this] have ch: "chain_of (table s') k = chain_of (table s1) k" .
    from patched u t' kj gt' ch log e' hk tif show ?thesis
      by simp
  qed
qed

lemma table_inv_round:
  assumes "table_inv s" and "lzw_iter al x y w gif s = Some (Inr (Continue gif' s'))"
    and "in_range s'"
  shows "table_inv s'"
proof -
  from assms(1) have si: "size_inv s" and cl: "clear s = 2 ^ (init_key_size s - 1)"
    and st: "stop s = clear s + 1"
    unfolding table_inv_def by blast+
  note si' = size_inv_round [OF si assms(2)]
  note ik = lzw_iter_init_key_size [OF assms(2)]
  from assms(2) show ?thesis
  proof (cases rule: lzw_iter_cases)
    case (cleared s1 sl sh b)
    from table_inv_head [OF assms(1) cleared(1)] cleared(3)
    have "good_table (clear s) (table s')" by simp
    moreover from cleared(3) lzw_head_keeps [OF cleared(1)] have "key s' = clear s'" by simp
    ultimately show ?thesis
      using si' ik cl st by (simp add: table_inv_def)
  next
    case (emitted s1 k gif1 sl sh b e' log)
    have ks: "key s' = k"
      using emitted(7) by (cases rule: patch_suffix_cases) (simp_all add: looked_up_def)
    have ns: "nentries (table s') = nentries (table s1)"
      using emitted(7) by (cases rule: patch_suffix_cases) (simp_all add: looked_up_def)
    from assms(3) ks ns have kn: "k < nentries (table s1)"
      by (simp add: in_range_def)
    note r = round_emitted [OF assms(1) emitted(1,3,4) kn emitted(6,7)]
    from r have gt': "good_table (clear s) (table s')" by blast
    from r kn st lzw_head_keeps [OF emitted(1)] emitted(3,4)
    have gc': "good_code (clear s) (table s') k"
      by (simp add: good_code_def)
    from chain_good [OF gt' gc']
    have "1 \<le> length_e (entries (table s') k)"
      by simp
    with r kn si' ik cl st lzw_head_keeps [OF emitted(1)] emitted(3,4) show ?thesis
      by (simp add: table_inv_def)
  qed
qed

lemma visits_table_inv:
  assumes "visits in_range al x y w gif0 gif s"
  shows "init_key_size s \<le> 12 \<longrightarrow> table_inv s"
  using assms
proof (induction rule: visits.induct)
  case (first gif s)
  then show ?case by (simp add: table_inv_start)
next
  case (round gif s gif' s')
  then show ?case
    using lzw_iter_init_key_size [OF round(2)] by (auto intro: table_inv_round)
qed

lemma visits_width_inv:
  assumes "visits no_stale_ret al x y w gif0 gif s"
  shows "init_key_size s \<le> 12 \<longrightarrow> width_inv s \<and> no_stale_ret s"
  using assms
proof (induction rule: visits.induct)
  case (first gif s)
  then show ?case by (simp add: width_inv_start)
next
  case (round gif s gif' s')
  then show ?case
    using lzw_iter_init_key_size [OF round(2)] by (auto intro: width_inv_round)
qed


section \<open>Running a session round by round\<close>

lemma nth_round_Suc:
  assumes "nth_round al x y w gif0 (Suc n) \<noteq> None"
  shows "nth_round al x y w gif0 n \<noteq> None \<and>
         lzw_iter al x y w (gif_at al x y w gif0 n) (state_at al x y w gif0 n) =
           Some (Inr (Continue (gif_at al x y w gif0 (Suc n)) (state_at al x y w gif0 (Suc n))))"
  using assms
  by (auto simp: gif_at_def state_at_def
        split: option.splits sum.splits flow.splits prod.splits)

lemma visits_at:
  assumes "nth_round al x y w gif0 n \<noteq> None"
    and "\<forall>m \<le> n. ok (state_at al x y w gif0 m)"
  shows "visits ok al x y w gif0 (gif_at al x y w gif0 n) (state_at al x y w gif0 n)"
  using assms
proof (induction n)
  case 0
  then show ?case
    by (auto simp: gif_at_def state_at_def intro!: visits.first split: sum.splits)
next
  case (Suc n)
  from nth_round_Suc [OF Suc.prems(1)] Suc.prems(2) Suc.IH show ?case
    by (auto intro: visits.round)
qed

text \<open>The equations that run \<open>nth_round\<close> on a concrete stream.\<close>

lemmas at_simps = gif_at_def state_at_def


section \<open>What a round reads and stores\<close>

lemma get_key_loop_fd:
  "get_key_loop gif ksz sl sh b br k0 = Inr (k, gif1, sl1, b1) \<Longrightarrow> gif1 = gif\<lparr>fd := fd gif1\<rparr>"
proof (induction gif ksz sl sh b br k0 rule: get_key_loop.induct)
  case (1 gif ksz sl sh b br k0)
  show ?case
  proof (cases "br < ksz")
    case False
    with "1.prems" show ?thesis
      by (subst (asm) get_key_loop.simps) simp
  next
    case True
    let ?rpad = "(unat sh + br) mod 8"
    let ?u = "if ?rpad = 0 then update_byte gif sl b else (gif, sl, b)"
    let ?fs = "min (ksz - br) (8 - ?rpad)"
    let ?v = "push_bit br (fragment (snd (snd ?u)) ?rpad)"
    from "1.prems" True have a: "\<not> 32 \<le> br" "int_ok (int ?v)"
      and rec: "get_key_loop (fst ?u) ksz (fst (snd ?u)) sh (snd (snd ?u)) (br + ?fs)
                  ((k0 OR ?v) mod 65536) = Inr (k, gif1, sl1, b1)"
      by (subst (asm) get_key_loop.simps; simp add: Let_def split: if_splits)+
    from "1.IH" [OF True refl refl refl refl a(1) _ rec] a
    have "gif1 = (fst ?u)\<lparr>fd := fd gif1\<rparr>"
      by simp
    moreover have "\<exists>f. fst ?u = gif\<lparr>fd := f\<rparr>"
    proof (cases "?rpad = 0")
      case True
      then show ?thesis
        by (auto simp: update_byte_def Let_def split: prod.splits)
    next
      case False
      have "gif = gif\<lparr>fd := fd gif\<rparr>" by simp
      with False show ?thesis
        by (simp only: if_False fst_conv) (rule exI)
    qed
    then obtain f where "fst ?u = gif\<lparr>fd := f\<rparr>" ..
    ultimately show ?thesis
      by simp
  qed
qed

lemma get_key_fd:
  "get_key gif ksz sl sh b = Inr (k, gif1, sl1, sh1, b1) \<Longrightarrow> gif1 = gif\<lparr>fd := fd gif1\<rparr>"
  by (auto simp: get_key_def split: sum.splits prod.splits if_splits dest: get_key_loop_fd)

lemma lzw_start_fd:
  "lzw_start al gif0 = Inr (gif, s) \<Longrightarrow> gif = gif0\<lparr>fd := fd gif\<rparr> \<and> written s = [] \<and> frm_off s = 0"
  by (auto simp: lzw_start_def Let_def split: prod.splits option.splits if_splits sum.splits
        dest!: get_key_fd)

lemma put_pixel_keeps:
  "put_pixel gif x y w p v = Inr g \<Longrightarrow>
     width g = width gif \<and> length (frame g) = length (frame gif) \<and> fd g = fd gif"
  by (auto simp: put_pixel_def split: sum.splits if_splits)

lemma put_pixel_fd:
  "put_pixel gif x y w p v = Inr g \<Longrightarrow> put_pixel (gif\<lparr>fd := f\<rparr>) x y w p v = Inr (g\<lparr>fd := f\<rparr>)"
  by (auto simp: put_pixel_def frame_index_def Let_def split: sum.splits if_splits)

lemma put_pixels_fd:
  "put_pixels gif x y w ws = Inr g \<Longrightarrow> put_pixels (gif\<lparr>fd := f\<rparr>) x y w ws = Inr (g\<lparr>fd := f\<rparr>)"
proof (induction ws arbitrary: gif)
  case Nil
  then show ?case by simp
next
  case (Cons pv ws)
  from Cons.prems obtain g1 where p: "put_pixel gif x y w (fst pv) (snd pv) = Inr g1"
    and r: "put_pixels g1 x y w ws = Inr g"
    by (auto split: sum.splits)
  from put_pixel_fd [OF p] Cons.IH [OF r] show ?case
    by simp
qed

lemma put_pixels_append:
  "put_pixels gif x y w ws = Inr g \<Longrightarrow> put_pixels gif x y w (ws @ vs) = put_pixels g x y w vs"
  by (induction ws arbitrary: gif) (auto split: sum.splits)

lemma put_pixels_keeps:
  "put_pixels gif x y w ws = Inr g \<Longrightarrow>
     width g = width gif \<and> length (frame g) = length (frame gif) \<and> fd g = fd gif"
proof (induction ws arbitrary: gif)
  case Nil
  then show ?case by simp
next
  case (Cons pv ws)
  from Cons.prems obtain g1 where p: "put_pixel gif x y w (fst pv) (snd pv) = Inr g1"
    and r: "put_pixels g1 x y w ws = Inr g"
    by (auto split: sum.splits)
  from put_pixel_keeps [OF p] Cons.IH [OF r] show ?case
    by simp
qed

lemma write_string_stores:
  assumes "write_string gif t x y w f e log0 = Some r"
  shows "\<forall>gif' e' log. r = Inr (gif', e', log) \<longrightarrow>
           (\<exists>ws. log = log0 @ ws \<and> put_pixels gif x y w ws = Inr gif')"
proof (rule write_string.raw_induct
         [where P = "\<lambda>gif t x y w f e log0 r. \<forall>gif' e' log. r = Inr (gif', e', log) \<longrightarrow>
           (\<exists>ws. log = log0 @ ws \<and> put_pixels gif x y w ws = Inr gif')"
           and xa = "(((((((gif, t), x), y), w), f), e), log0)" and ya = r,
          unfolded prod.case, OF _ assms],
       goal_cases)
  case (1 ws gif t x y w f e log0 r)
  note IH = "1"(1) and body = "1"(2)
  show ?case
  proof (intro allI impI)
    fix gif' e' log assume r: "r = Inr (gif', e', log)"
    let ?p = "int f + int (length_e e) - 1"
    from body r obtain g1 where pp: "put_pixel gif x y w ?p (suffix_e e) = Inr g1"
      by (cases "put_pixel gif x y w ?p (suffix_e e)") (auto simp: Let_def split: if_splits)
    show "\<exists>vs. log = log0 @ vs \<and> put_pixels gif x y w vs = Inr gif'"
    proof (cases "prefix_e e = 0xFFF")
      case True
      with body r pp have "log = log0 @ [(?p, suffix_e e)]" "gif' = g1"
        by (auto simp: Let_def split: if_splits)
      with pp show ?thesis
        by (intro exI [of _ "[(?p, suffix_e e)]"]) simp
    next
      case False
      with body r pp
      have rec: "ws g1 t x y w f (entries t (prefix_e e)) (log0 @ [(?p, suffix_e e)]) = Some r"
        by (auto simp: Let_def split: if_splits)
      from IH [OF rec] r obtain vs where "log = (log0 @ [(?p, suffix_e e)]) @ vs"
        "put_pixels g1 x y w vs = Inr gif'"
        by blast
      with pp show ?thesis
        by (intro exI [of _ "(?p, suffix_e e) # vs"]) simp
    qed
  qed
qed

lemma patch_suffix_written:
  assumes "patch_suffix k u = Inr s'"
  shows "written s' = written u \<and> emitted s' = emitted u \<and> key s' = key u \<and>
         clear s' = clear u \<and> frm_off s' = frm_off u"
  using assms by (cases rule: patch_suffix_cases) simp_all

lemma lzw_head_reads:
  assumes "lzw_head al s = Inr (Some s1)"
  shows "sub_len s1 = sub_len s \<and> shift s1 = shift s \<and> byte s1 = byte s \<and>
         key_size s1 = (if key s = clear s then init_key_size s else key_size s)"
  using assms by (cases rule: lzw_head_cases) (auto split: if_splits)

lemma patch_suffix_reads:
  assumes "patch_suffix k u = Inr s'"
  shows "sub_len s' = sub_len u \<and> shift s' = shift u \<and> byte s' = byte u"
  using assms by (cases rule: patch_suffix_cases) simp_all

lemma round_stores:
  assumes "lzw_iter al x y w gif s = Some (Inr (Continue gif' s'))"
    and "put_pixels (gif0\<lparr>fd := fd gif\<rparr>) x y w (written s) = Inr gif"
  shows "put_pixels (gif0\<lparr>fd := fd gif'\<rparr>) x y w (written s') = Inr gif' \<and>
         written s' = (if key s' = clear s' then written s else written s @ emitted s') \<and>
         put_pixels (gif\<lparr>fd := fd gif'\<rparr>) x y w (if key s' = clear s' then [] else emitted s') =
           Inr gif'"
  using assms(1)
proof (cases rule: lzw_iter_cases)
  case (cleared s1 sl sh b)
  note hk = lzw_head_keeps [OF cleared(1)]
  from get_key_fd [OF cleared(2)] have g: "gif' = gif\<lparr>fd := fd gif'\<rparr>" .
  from put_pixels_fd [OF assms(2), of "fd gif'"] g
  have "put_pixels (gif0\<lparr>fd := fd gif'\<rparr>) x y w (written s) = Inr gif'"
    by simp
  with cleared(3) hk g show ?thesis
    by simp
next
  case (emitted s1 k gif1 sl sh b e' log)
  note hk = lzw_head_keeps [OF emitted(1)]
  from get_key_fd [OF emitted(2)] have g: "gif1 = gif\<lparr>fd := fd gif1\<rparr>" .
  from write_string_stores [OF emitted(6)] have ws: "put_pixels gif1 x y w log = Inr gif'"
    by simp
  from put_pixels_keeps [OF ws] have fd: "fd gif' = fd gif1"
    by simp
  from put_pixels_fd [OF assms(2), of "fd gif1"] g
  have "put_pixels (gif0\<lparr>fd := fd gif1\<rparr>) x y w (written s) = Inr gif1"
    by simp
  from put_pixels_append [OF this, of log] ws fd
  have a: "put_pixels (gif0\<lparr>fd := fd gif'\<rparr>) x y w (written s @ log) = Inr gif'"
    by simp
  from patch_suffix_written [OF emitted(7)] hk emitted(3)
  have u: "written s' = written s @ log" "emitted s' = log" "key s' \<noteq> clear s'"
    by (simp_all add: looked_up_def)
  from g ws fd have "put_pixels (gif\<lparr>fd := fd gif'\<rparr>) x y w log = Inr gif'"
    by simp
  with a u show ?thesis
    by simp
qed

lemma visits_stores:
  assumes "visits ok al x y w gif0 gif s"
  shows "put_pixels (gif0\<lparr>fd := fd gif\<rparr>) x y w (written s) = Inr gif"
  using assms
proof (induction rule: visits.induct)
  case (first gif s)
  from lzw_start_fd [OF first(1)] show ?case
    by simp
next
  case (round gif s gif' s')
  from round_stores [OF round(2) round.IH] show ?case
    by (rule conjunct1)
qed

lemma round_reads:
  assumes "lzw_iter al x y w gif s = Some (Inr (Continue gif' s'))"
  shows "get_key gif (if key s = clear s then init_key_size s else key_size s)
           (sub_len s) (shift s) (byte s) =
         Inr (key s', gif\<lparr>fd := fd gif'\<rparr>, sub_len s', shift s', byte s')"
  using assms
proof (cases rule: lzw_iter_cases)
  case (cleared s1 sl sh b)
  note hr = lzw_head_reads [OF cleared(1)]
  from get_key_fd [OF cleared(2)] have g: "gif' = gif\<lparr>fd := fd gif'\<rparr>" .
  from cleared(2) hr have "get_key gif (if key s = clear s then init_key_size s else key_size s)
           (sub_len s) (shift s) (byte s) = Inr (clear s1, gif', sl, sh, b)"
    by simp
  with g cleared(3) show ?thesis
    by simp
next
  case (emitted s1 k gif1 sl sh b e' log)
  note hr = lzw_head_reads [OF emitted(1)]
  from get_key_fd [OF emitted(2)] have g: "gif1 = gif\<lparr>fd := fd gif1\<rparr>" .
  from write_string_stores [OF emitted(6)] have ws: "put_pixels gif1 x y w log = Inr gif'"
    by simp
  from put_pixels_keeps [OF ws] have fd: "fd gif' = fd gif1"
    by simp
  from patch_suffix_written [OF emitted(7)] patch_suffix_reads [OF emitted(7)]
  have u: "key s' = k" "sub_len s' = sl" "shift s' = sh" "byte s' = b"
    by (simp_all add: looked_up_def)
  from emitted(2) hr have "get_key gif (if key s = clear s then init_key_size s else key_size s)
           (sub_len s) (shift s) (byte s) = Inr (k, gif1, sl, sh, b)"
    by simp
  with g fd u show ?thesis
    by simp
qed

lemma break_reads:
  assumes "lzw_iter al x y w gif s = Some (Inr (Break gif' s'))"
  shows "get_key gif (if key s = clear s then init_key_size s else key_size s)
           (sub_len s) (shift s) (byte s) =
         Inr (stop s, gif', sub_len s', shift s', byte s')"
proof -
  from assms obtain s1 where h: "lzw_head al s = Inr (Some s1)"
    by (cases "lzw_head al s") (auto simp: lzw_iter_def split: option.splits)
  from assms h obtain k gif1 sl sh b
    where g: "get_key gif (key_size s1) (sub_len s1) (shift s1) (byte s1) = Inr (k, gif1, sl, sh, b)"
    by (cases "get_key gif (key_size s1) (sub_len s1) (shift s1) (byte s1)")
       (auto simp: lzw_iter_def)
  from assms h g have "gif' = gif1 \<and> k = stop s1 \<and>
      s' = s1\<lparr>key := k, sub_len := sl, shift := sh, byte := b\<rparr>"
    by (auto simp: lzw_iter_def Let_def split: if_splits option.splits sum.splits)
  with g lzw_head_reads [OF h] lzw_head_keeps [OF h] show ?thesis
    by simp
qed

section \<open>The size of the table (C6)\<close>

text \<open>
  C6, as amended. In a session whose minimum code size byte is at most 11 (so that
  \<open>init_key_size\<close> is at most 12), the number of table entries never exceeds \<open>0x1000\<close>
  at the head of the loop, and the table is marked full exactly when it has \<open>0x1000\<close>
  entries. A round that starts with the clear code resets the number of entries to
  \<open>2 ^ (init_key_size - 1) + 2\<close>; a round that starts with a full table leaves the whole
  table as it is; any other round adds one entry.
\<close>

theorem table_capped_and_frozen:
  assumes "visits any_state al x y w gif0 gif s" and "init_key_size s \<le> 12"
  shows "nentries (table s) \<le> 0x1000 \<and>
         (table_is_full s = Some True \<longleftrightarrow> nentries (table s) = 0x1000) \<and>
         (\<forall>gif' s'. lzw_iter al x y w gif s = Some (Inr (Continue gif' s')) \<longrightarrow>
            (if key s = clear s
             then nentries (table s') = 2 ^ (init_key_size s - 1) + 2 \<and>
                  table_is_full s' = Some False
             else if nentries (table s) = 0x1000
             then table s' = table s \<and> table_is_full s' = Some True
             else nentries (table s') = nentries (table s) + 1))"
proof -
  from visits_size_inv [OF assms(1)] assms(2) have si: "size_inv s" by simp
  have step: "if key s = clear s
             then nentries (table s') = 2 ^ (init_key_size s - 1) + 2 \<and>
                  table_is_full s' = Some False
             else if nentries (table s) = 0x1000
             then table s' = table s \<and> table_is_full s' = Some True
             else nentries (table s') = nentries (table s) + 1"
    if it: "lzw_iter al x y w gif s = Some (Inr (Continue gif' s'))" for gif' s'
    using it
  proof (cases rule: lzw_iter_after_head)
    case (1 s1)
    from 1(1) show ?thesis
    proof (cases rule: lzw_head_cases)
      case reset
      with 1 show ?thesis by simp
    next
      case full
      have "table s' = table s1"
        using it
      proof (cases rule: lzw_iter_cases)
        case (cleared s2 sl sh b)
        with 1(1) show ?thesis by simp
      next
        case (emitted s2 k gif1 sl sh b e' log)
        from emitted(1) 1(1) have "s2 = s1" by simp
        with emitted(7) full show ?thesis
          by (cases rule: patch_suffix_cases) (simp_all add: looked_up_def)
      qed
      with full 1 si show ?thesis
        by (simp add: size_inv_def)
    next
      case (add l e r t')
      from add_entry_result [OF add(5,6)] have "nentries t' = Suc (nentries (table s))"
        by simp
      moreover from add have "table s1 = t'" by (simp split: if_splits)
      ultimately show ?thesis
        using add 1 si by (auto simp: size_inv_def)
    qed
  qed
  from si step show ?thesis
    by (simp add: size_inv_def)
qed

theorem table_capped_and_frozen_witness:
  "visits any_state generous 0 0 2 (decoder_on three_pixels)
     (gif_at generous 0 0 2 (decoder_on three_pixels) (Suc 0))
     (state_at generous 0 0 2 (decoder_on three_pixels) (Suc 0)) \<and>
   init_key_size (state_at generous 0 0 2 (decoder_on three_pixels) (Suc 0)) \<le> 12 \<and>
   nentries (table (state_at generous 0 0 2 (decoder_on three_pixels) (Suc 0))) = 6 \<and>
   lzw_iter generous 0 0 2 (gif_at generous 0 0 2 (decoder_on three_pixels) (Suc 0))
     (state_at generous 0 0 2 (decoder_on three_pixels) (Suc 0)) =
     Some (Inr (Continue (gif_at generous 0 0 2 (decoder_on three_pixels) (Suc (Suc 0)))
                  (state_at generous 0 0 2 (decoder_on three_pixels) (Suc (Suc 0))))) \<and>
   nentries (table (state_at generous 0 0 2 (decoder_on three_pixels) (Suc (Suc 0)))) = 7"
proof -
  let ?g = "\<lambda>n. gif_at generous 0 0 2 (decoder_on three_pixels) n"
  let ?s = "\<lambda>n. state_at generous 0 0 2 (decoder_on three_pixels) n"
  have d: "nth_round generous 0 0 2 (decoder_on three_pixels) (Suc (Suc 0)) \<noteq> None"
    by (simp add: run_simps three_pixels_def)
  note it = nth_round_Suc [OF d]
  have v: "visits any_state generous 0 0 2 (decoder_on three_pixels) (?g (Suc 0)) (?s (Suc 0))"
    using it by (intro visits_at) (simp_all add: any_state_def)
  have i: "init_key_size (?s (Suc 0)) \<le> 12"
    by (simp add: at_simps run_simps three_pixels_def)
  have n: "nentries (table (?s (Suc 0))) = 6" "key (?s (Suc 0)) \<noteq> clear (?s (Suc 0))"
    by (simp_all add: at_simps run_simps three_pixels_def)
  from table_capped_and_frozen [OF v i] it n v i show ?thesis
    by simp
qed

text \<open>
  C6 as stated fails: with the minimum code size byte 12 the table has 4098 entries when
  the loop is entered.
\<close>

theorem table_over_4096:
  "nth_round generous 0 0 2 (decoder_on wide_codes) 0 \<noteq> None \<and>
   nentries (table (state_at generous 0 0 2 (decoder_on wide_codes) 0)) = 4098"
  by (simp add: at_simps run_simps wide_codes_def)

section \<open>The width of the codes (C2)\<close>

text \<open>
  C2, as amended. In a session whose minimum code size byte is at most 11 and in which no
  clear code is read while \<open>ret\<close> is 1, the width \<open>key_size\<close> is at least
  \<open>init_key_size\<close> and at most 12 at the head of the loop. The code of a round, the stop
  code too, is read with the width that \<open>key_size\<close> has at the head of the round, or with
  \<open>init_key_size\<close> when the round starts with the clear code. In a round that neither
  starts with the clear code nor reads it, the width then grows by one exactly when the
  round has added an entry that made the number of entries a power of two other than
  \<open>0x1000\<close>; otherwise it stays.
\<close>

theorem key_size_bounds:
  assumes "visits no_stale_ret al x y w gif0 gif s" and "init_key_size s \<le> 12"
  shows "init_key_size s \<le> key_size s \<and> key_size s \<le> 12 \<and>
         (\<forall>gif' s'. lzw_iter al x y w gif s = Some (Inr (Continue gif' s')) \<longrightarrow>
            get_key gif (if key s = clear s then init_key_size s else key_size s)
              (sub_len s) (shift s) (byte s) =
              Inr (key s', gif\<lparr>fd := fd gif'\<rparr>, sub_len s', shift s', byte s') \<and>
            (key s \<noteq> clear s \<and> key s' \<noteq> clear s' \<longrightarrow>
               key_size s' =
                 (if table_is_full s = Some False \<and> nentries (table s') \<noteq> 0x1000 \<and>
                     nentries (table s') AND (nentries (table s') - 1) = 0
                  then key_size s + 1 else key_size s))) \<and>
         (\<forall>gif' s'. lzw_iter al x y w gif s = Some (Inr (Break gif' s')) \<longrightarrow>
            get_key gif (if key s = clear s then init_key_size s else key_size s)
              (sub_len s) (shift s) (byte s) =
              Inr (stop s, gif', sub_len s', shift s', byte s'))"
proof -
  from visits_width_inv [OF assms(1)] assms(2) have wi: "width_inv s" by simp
  have step: "key_size s' =
              (if table_is_full s = Some False \<and> nentries (table s') \<noteq> 0x1000 \<and>
                  nentries (table s') AND (nentries (table s') - 1) = 0
               then key_size s + 1 else key_size s)"
    if it: "lzw_iter al x y w gif s = Some (Inr (Continue gif' s'))"
      and k: "key s \<noteq> clear s" "key s' \<noteq> clear s'" for gif' s'
    using it
  proof (cases rule: lzw_iter_after_head)
    case (1 s1)
    from 1(1) show ?thesis
    proof (cases rule: lzw_head_cases)
      case reset
      with k show ?thesis by simp
    next
      case full
      with wi 1 k show ?thesis
        by (simp add: width_inv_def)
    next
      case (add l e r t')
      from add_entry_result [OF add(5,6)]
      have r: "r = (if nentries t' AND (nentries t' - 1) = 0 then 1 else 0)"
        by simp
      from add have t: "table s1 = t'" by (simp split: if_splits)
      show ?thesis
      proof (cases "nentries t' = 0x1000")
        case True
        with add 1 k t show ?thesis by simp
      next
        case False
        with add 1 k t r show ?thesis by simp
      qed
    qed
  qed
  from wi have "init_key_size s \<le> key_size s \<and> key_size s \<le> 12"
    by (simp add: width_inv_def)
  with step round_reads break_reads show ?thesis
    by blast
qed

theorem key_size_bounds_witness:
  "visits no_stale_ret generous 0 0 2 (decoder_on three_pixels)
     (gif_at generous 0 0 2 (decoder_on three_pixels) (Suc (Suc 0)))
     (state_at generous 0 0 2 (decoder_on three_pixels) (Suc (Suc 0))) \<and>
   init_key_size (state_at generous 0 0 2 (decoder_on three_pixels) (Suc (Suc 0))) \<le> 12 \<and>
   key_size (state_at generous 0 0 2 (decoder_on three_pixels) (Suc (Suc 0))) = 3 \<and>
   lzw_iter generous 0 0 2 (gif_at generous 0 0 2 (decoder_on three_pixels) (Suc (Suc 0)))
     (state_at generous 0 0 2 (decoder_on three_pixels) (Suc (Suc 0))) =
     Some (Inr (Continue (gif_at generous 0 0 2 (decoder_on three_pixels) (Suc (Suc (Suc 0))))
                  (state_at generous 0 0 2 (decoder_on three_pixels) (Suc (Suc (Suc 0)))))) \<and>
   get_key (gif_at generous 0 0 2 (decoder_on three_pixels) (Suc (Suc 0))) 3
     (sub_len (state_at generous 0 0 2 (decoder_on three_pixels) (Suc (Suc 0))))
     (shift (state_at generous 0 0 2 (decoder_on three_pixels) (Suc (Suc 0))))
     (byte (state_at generous 0 0 2 (decoder_on three_pixels) (Suc (Suc 0)))) =
     Inr (1, (gif_at generous 0 0 2 (decoder_on three_pixels) (Suc (Suc 0)))
               \<lparr>fd := \<lparr>content = three_pixels, offset = 4\<rparr>\<rparr>, 0, 4, 0x52) \<and>
   nentries (table (state_at generous 0 0 2 (decoder_on three_pixels) (Suc (Suc (Suc 0))))) = 8 \<and>
   key_size (state_at generous 0 0 2 (decoder_on three_pixels) (Suc (Suc (Suc 0)))) = 4 \<and>
   visits no_stale_ret generous 0 0 2 (decoder_on three_pixels)
     (gif_at generous 0 0 2 (decoder_on three_pixels) (Suc (Suc (Suc 0))))
     (state_at generous 0 0 2 (decoder_on three_pixels) (Suc (Suc (Suc 0)))) \<and>
   lzw_iter generous 0 0 2 (gif_at generous 0 0 2 (decoder_on three_pixels) (Suc (Suc (Suc 0))))
     (state_at generous 0 0 2 (decoder_on three_pixels) (Suc (Suc (Suc 0)))) =
     Some (Inr (Break (gif_at generous 0 0 2 (decoder_on three_pixels) (Suc (Suc (Suc 0))))
                  ((after_head generous
                      (state_at generous 0 0 2 (decoder_on three_pixels) (Suc (Suc (Suc 0)))))
                     \<lparr>key := 5, sub_len := 0, shift := 0, byte := 0x52\<rparr>))) \<and>
   get_key (gif_at generous 0 0 2 (decoder_on three_pixels) (Suc (Suc (Suc 0)))) 4
     (sub_len (state_at generous 0 0 2 (decoder_on three_pixels) (Suc (Suc (Suc 0)))))
     (shift (state_at generous 0 0 2 (decoder_on three_pixels) (Suc (Suc (Suc 0)))))
     (byte (state_at generous 0 0 2 (decoder_on three_pixels) (Suc (Suc (Suc 0))))) =
     Inr (5, gif_at generous 0 0 2 (decoder_on three_pixels) (Suc (Suc (Suc 0))), 0, 0, 0x52)"
proof -
  let ?g = "\<lambda>n. gif_at generous 0 0 2 (decoder_on three_pixels) n"
  let ?s = "\<lambda>n. state_at generous 0 0 2 (decoder_on three_pixels) n"
  have d: "nth_round generous 0 0 2 (decoder_on three_pixels) (Suc (Suc (Suc 0))) \<noteq> None"
    by (simp add: run_simps three_pixels_def)
  note it = nth_round_Suc [OF d]
  have ok: "no_stale_ret (?s 0)" "no_stale_ret (?s (Suc 0))" "no_stale_ret (?s (Suc (Suc 0)))"
    "no_stale_ret (?s (Suc (Suc (Suc 0))))"
    by (simp_all add: no_stale_ret_def at_simps run_simps three_pixels_def)
  have v: "visits no_stale_ret generous 0 0 2 (decoder_on three_pixels)
             (?g (Suc (Suc 0))) (?s (Suc (Suc 0)))"
    using it ok by (intro visits_at) (simp_all add: le_Suc_eq)
  have v3: "visits no_stale_ret generous 0 0 2 (decoder_on three_pixels)
             (?g (Suc (Suc (Suc 0)))) (?s (Suc (Suc (Suc 0))))"
    using d ok by (intro visits_at) (simp_all add: le_Suc_eq)
  have i: "init_key_size (?s (Suc (Suc 0))) \<le> 12" "init_key_size (?s (Suc (Suc (Suc 0)))) \<le> 12"
    by (simp_all add: at_simps run_simps three_pixels_def)
  have n: "nentries (table (?s (Suc (Suc (Suc 0))))) = 8"
    "key (?s (Suc (Suc 0))) \<noteq> clear (?s (Suc (Suc 0)))"
    "key (?s (Suc (Suc (Suc 0)))) \<noteq> clear (?s (Suc (Suc (Suc 0))))"
    "table_is_full (?s (Suc (Suc 0))) = Some False"
    "key_size (?s (Suc (Suc 0))) = 3"
    by (simp_all add: at_simps run_simps three_pixels_def)
  have m: "key (?s (Suc (Suc (Suc 0)))) = 1" "sub_len (?s (Suc (Suc (Suc 0)))) = 0"
    "shift (?s (Suc (Suc (Suc 0)))) = 4" "byte (?s (Suc (Suc (Suc 0)))) = 0x52"
    "fd (?g (Suc (Suc (Suc 0)))) = \<lparr>content = three_pixels, offset = 4\<rparr>"
    "stop (?s (Suc (Suc (Suc 0)))) = 5"
    by (simp_all add: at_simps run_simps three_pixels_def)
  have b: "lzw_iter generous 0 0 2 (?g (Suc (Suc (Suc 0)))) (?s (Suc (Suc (Suc 0)))) =
     Some (Inr (Break (?g (Suc (Suc (Suc 0))))
                  ((after_head generous (?s (Suc (Suc (Suc 0)))))
                     \<lparr>key := 5, sub_len := 0, shift := 0, byte := 0x52\<rparr>)))"
    by (simp add: at_simps run_simps three_pixels_def after_head_def)
  from key_size_bounds [OF v i(1)] key_size_bounds [OF v3 i(2)] it n m b v v3 i show ?thesis
    by simp
qed

text \<open>
  C2 as stated fails: with the minimum code size byte 12 the codes are 13 bits wide from
  the start.
\<close>

theorem key_size_13:
  "nth_round generous 0 0 2 (decoder_on wide_codes) 0 \<noteq> None \<and>
   init_key_size (state_at generous 0 0 2 (decoder_on wide_codes) 0) = 13 \<and>
   key_size (state_at generous 0 0 2 (decoder_on wide_codes) 0) = 13"
  by (simp add: at_simps run_simps wide_codes_def)


section \<open>The walk through the prefixes (C8)\<close>





lemma write_string_needs_width:
  assumes "write_string gif t x y w f e log0 = Some (Inr r)"
  shows "0 < w"
proof (rule ccontr)
  assume "\<not> 0 < w"
  then have "w = 0" by simp
  with assms show False
    by (subst (asm) write_string.simps)
       (simp add: put_pixel_def frame_index_def Let_def split: if_splits)
qed

lemma positions_of_lengths:
  "map (\<lambda>l. int f + int l - 1) (rev [1..<n + 1]) = map int (rev [f..<f + n])"
proof -
  have a: "[1..<n + 1] = map Suc [0..<n]"
    by (simp add: map_Suc_upt)
  have b: "[f..<f + n] = map (\<lambda>i. i + f) [0..<n]"
    by (simp add: map_add_upt add.commute)
  show ?thesis
    unfolding a b by (simp add: rev_map o_def add.commute)
qed

lemma writes_of_positions:
  assumes "map length_e c = rev [1..<n + 1]"
  shows "map fst (writes_of f c) = map int (rev [f..<f + n])"
proof -
  have "map fst (writes_of f c) = map (\<lambda>l. int f + int l - 1) (map length_e c)"
    by (simp add: writes_of_def o_def)
  with assms show ?thesis
    by (simp only: positions_of_lengths)
qed

lemma round_offsets:
  assumes "table_inv s" and "lzw_iter al x y w gif s = Some (Inr (Continue gif' s'))"
    and "in_range s'"
  shows "if key s' = clear s' then frm_off s' = frm_off s
         else map fst (emitted s') = map int (rev [frm_off s..<frm_off s']) \<and>
              frm_off s' = frm_off s + length (emitted s') \<and> 0 < length (emitted s') \<and>
              str_len s' = Some (length (emitted s')) \<and> 0 < w"
proof -
  from assms(1) have st: "stop s = clear s + 1"
    unfolding table_inv_def by blast
  from assms(2) show ?thesis
  proof (cases rule: lzw_iter_cases)
    case (cleared s1 sl sh b)
    with lzw_head_keeps [OF cleared(1)] show ?thesis by simp
  next
    case (emitted s1 k gif1 sl sh b e' log)
    note hk = lzw_head_keeps [OF emitted(1)]
    from patch_suffix_written [OF emitted(7)] hk emitted(3)
    have kc: "key s' \<noteq> clear s'"
      by (simp add: looked_up_def)
    have ns: "nentries (table s') = nentries (table s1)" "key s' = k"
      using emitted(7) by (cases rule: patch_suffix_cases; simp add: looked_up_def)+
    from assms(3) ns have kn: "k < nentries (table s1)"
      by (simp add: in_range_def)
    note r = round_emitted [OF assms(1) emitted(1,3,4) kn emitted(6,7)]
    from table_inv_head [OF assms(1) emitted(1)] have gt: "good_table (clear s) (table s1)"
      by simp
    from kn emitted(3,4) hk st have gc: "good_code (clear s) (table s1) k"
      by (simp add: good_code_def)
    note cg = chain_good [OF gt gc]
    let ?L = "length_e (entries (table s1) k)"
    from cg have ml: "map length_e (chain_of (table s1) k) = rev [1..<?L + 1]"
      by simp
    from cg have l1: "1 \<le> ?L" by simp
    from r have em: "emitted s' = writes_of (frm_off s) (chain_of (table s1) k)"
      and fo: "frm_off s' = frm_off s + ?L" and sl: "str_len s' = Some ?L"
      by simp_all
    from writes_of_positions [OF ml, of "frm_off s"]
    have pos: "map fst (emitted s') = map int (rev [frm_off s..<frm_off s'])"
      by (simp add: em fo)
    from arg_cong [OF pos, of length] have len: "length (emitted s') = ?L"
      by (simp add: fo)
    note w = write_string_needs_width [OF emitted(6)]
    from kc pos fo len w l1 sl show ?thesis
      by simp
  qed
qed

lemma visits_offsets:
  assumes "visits in_range al x y w gif0 gif s"
  shows "init_key_size s \<le> 12 \<longrightarrow>
           length (written s) = frm_off s \<and> distinct (map fst (written s)) \<and>
           set (map fst (written s)) = int ` {..<frm_off s}"
  using assms
proof (induction rule: visits.induct)
  case (first gif s)
  from lzw_start_fd [OF first(1)] show ?case
    by simp
next
  case (round gif s gif' s')
  show ?case
  proof
    assume i': "init_key_size s' \<le> 12"
    with lzw_iter_init_key_size [OF round(2)] have i: "init_key_size s \<le> 12"
      by simp
    from visits_table_inv [OF round(1)] i have ti: "table_inv s" by simp
    from round.IH i have ih: "length (written s) = frm_off s"
      "distinct (map fst (written s))" "set (map fst (written s)) = int ` {..<frm_off s}"
      by simp_all
    note st = round_stores [OF round(2) visits_stores [OF round(1)]]
    note ro = round_offsets [OF ti round(2,3)]
    show "length (written s') = frm_off s' \<and> distinct (map fst (written s')) \<and>
          set (map fst (written s')) = int ` {..<frm_off s'}"
    proof (cases "key s' = clear s'")
      case True
      with st ro ih show ?thesis by simp
    next
      case False
      with ro have pos: "map fst (emitted s') = map int (rev [frm_off s..<frm_off s'])"
        and fo: "frm_off s' = frm_off s + length (emitted s')"
        by simp_all
      from False st have wr: "written s' = written s @ emitted s'" by simp
      have d: "distinct (map int (rev [frm_off s..<frm_off s']))"
        by (simp add: distinct_map)
      have s: "set (map int (rev [frm_off s..<frm_off s'])) = int ` {frm_off s..<frm_off s'}"
        by simp
      from fo have le: "frm_off s \<le> frm_off s'" by simp
      then have u: "{..<frm_off s} \<union> {frm_off s..<frm_off s'} = {..<frm_off s'}"
        by auto
      have dj: "int ` {..<frm_off s} \<inter> int ` {frm_off s..<frm_off s'} = {}"
        by auto
      from ih fo have "length (written s') = frm_off s'"
        by (simp add: wr)
      moreover from ih d dj have "distinct (map fst (written s'))"
        by (simp add: wr pos s del: map_map set_rev set_map set_upt)
      moreover have "set (map fst (written s')) = int ` {..<frm_off s'}"
      proof -
        have "set (map fst (written s')) =
                set (map fst (written s)) \<union> set (map fst (emitted s'))"
          by (simp add: wr)
        also have "\<dots> = int ` {..<frm_off s} \<union> int ` {frm_off s..<frm_off s'}"
          by (simp only: ih(3) pos s)
        also have "\<dots> = int ` {..<frm_off s'}"
          by (simp only: image_Un [symmetric] u)
        finally show ?thesis .
      qed
      ultimately show ?thesis by simp
    qed
  qed
qed

lemma frame_index_nat:
  assumes "frame_index gif x y w (int p) = Inr i"
  shows "0 < w \<and> i = int ((y + p div w) * width gif + (x + p mod w))"
proof -
  from assms have w: "0 < w"
    by (auto simp: frame_index_def split: if_splits)
  have d: "int p sdiv int w = int (p div w)"
    using w by (simp add: signed_divide_int_def zdiv_int sgn_if)
  have m: "int p smod int w = int (p mod w)"
    using w by (simp add: signed_modulo_int_def zmod_int sgn_if)
  from assms w show ?thesis
    unfolding frame_index_def Let_def d m
    by (auto split: if_splits)
qed

lemma frame_index_width:
  "width g = width gif \<Longrightarrow> frame_index g x y w p = frame_index gif x y w p"
  by (simp add: frame_index_def)

lemma put_pixel_in_raster:
  assumes "put_pixel gif x y w p v = Inr g"
  shows "\<exists>i. frame_index gif x y w p = Inr (int i) \<and> i < length (frame gif)"
proof -
  from assms obtain j where j: "frame_index gif x y w p = Inr j"
    and b: "0 \<le> j" "j < int (length (frame gif))"
    by (auto simp: put_pixel_def split: sum.splits if_splits)
  from b have "j = int (nat j)" "nat j < length (frame gif)"
    by simp_all
  with j show ?thesis
    by metis
qed

lemma put_pixels_in_raster:
  assumes "put_pixels gif x y w ws = Inr g" and "pv \<in> set ws"
  shows "\<exists>i. frame_index gif x y w (fst pv) = Inr (int i) \<and> i < length (frame gif)"
  using assms
proof (induction ws arbitrary: gif)
  case Nil
  then show ?case by simp
next
  case (Cons a ws)
  from Cons.prems(1) obtain g1 where p: "put_pixel gif x y w (fst a) (snd a) = Inr g1"
    and r: "put_pixels g1 x y w ws = Inr g"
    by (auto split: sum.splits)
  note k = put_pixel_keeps [OF p]
  show ?case
  proof (cases "pv = a")
    case True
    with put_pixel_in_raster [OF p] show ?thesis by simp
  next
    case False
    with Cons.prems(2) have "pv \<in> set ws" by simp
    from Cons.IH [OF r this] k frame_index_width [of g1 gif x y w "fst pv"] show ?thesis
      by simp
  qed
qed

lemma put_pixel_at:
  assumes "put_pixel gif x y w (int p) v = Inr g"
  shows "frame_index gif x y w (int p) = Inr (int (raster_cell gif x y w p)) \<and>
         raster_cell gif x y w p < length (frame gif) \<and>
         g = gif\<lparr>frame := (frame gif)[raster_cell gif x y w p := v]\<rparr>"
proof -
  from assms obtain j where j: "frame_index gif x y w (int p) = Inr j"
    by (auto simp: put_pixel_def split: sum.splits)
  from frame_index_nat [OF j] have "j = int (raster_cell gif x y w p)"
    by (simp only: raster_cell_def)
  with j have fi: "frame_index gif x y w (int p) = Inr (int (raster_cell gif x y w p))"
    by simp
  from assms show ?thesis
    unfolding put_pixel_def fi
    by (simp add: fi split: if_splits)
qed

lemma store_writes_width:
  "width g = width gif \<Longrightarrow> store_writes g x y w ws fr = store_writes gif x y w ws fr"
  by (induction ws arbitrary: fr) (simp_all add: raster_cell_def)

lemma put_pixels_stored:
  assumes "put_pixels gif x y w ws = Inr g" and "\<forall>pv \<in> set ws. 0 \<le> fst pv"
  shows "g = gif\<lparr>frame := store_writes gif x y w ws (frame gif)\<rparr>"
  using assms
proof (induction ws arbitrary: gif)
  case Nil
  then show ?case by simp
next
  case (Cons a ws)
  from Cons.prems(1) obtain g1 where p: "put_pixel gif x y w (fst a) (snd a) = Inr g1"
    and r: "put_pixels g1 x y w ws = Inr g"
    by (auto split: sum.splits)
  from Cons.prems(2) have a: "fst a = int (nat (fst a))" by simp
  from p a have "put_pixel gif x y w (int (nat (fst a))) (snd a) = Inr g1" by simp
  from put_pixel_at [OF this]
  have g1: "g1 = gif\<lparr>frame := (frame gif)[raster_cell gif x y w (nat (fst a)) := snd a]\<rparr>"
    by simp
  then have w: "width g1 = width gif" by simp
  from Cons.prems(2) have "\<forall>pv \<in> set ws. 0 \<le> fst pv" by simp
  from Cons.IH [OF r this] have "g = g1\<lparr>frame := store_writes g1 x y w ws (frame g1)\<rparr>" .
  also have "\<dots> = gif\<lparr>frame := store_writes gif x y w (a # ws) (frame gif)\<rparr>"
    by (simp add: store_writes_width [OF w]) (simp add: g1)
  finally show ?case .
qed

lemma in_rect_raster_cell:
  assumes "0 < w" and "x + w \<le> width gif"
  shows "in_rect gif x y w h (raster_cell gif x y w p) \<longleftrightarrow> p < w * h"
proof -
  let ?i = "raster_cell gif x y w p"
  from assms(1) have "p mod w < w" by simp
  with assms(2) have c: "x + p mod w < width gif" by simp
  then have m: "?i mod width gif = x + p mod w"
    by (simp add: raster_cell_def)
  from c have d: "?i div width gif = y + p div w"
    by (simp add: raster_cell_def)
  from assms(1) have "(p div w < h) = (p < w * h)"
    by (simp add: div_less_iff_less_mult mult.commute)
  with assms(1) show ?thesis
    by (simp add: in_rect_def m d)
qed

lemma put_pixels_cells:
  assumes "put_pixels gif x y w ws = Inr g" and "(int p, v) \<in> set ws"
  shows "frame_index gif x y w (int p) = Inr (int (raster_cell gif x y w p)) \<and>
         raster_cell gif x y w p < length (frame gif) \<and> 0 < w"
proof -
  from put_pixels_in_raster [OF assms] obtain i
    where i: "frame_index gif x y w (int p) = Inr (int i)" "i < length (frame gif)"
    by auto
  note f = frame_index_nat [OF i(1)]
  from f have w: "0 < w" ..
  from f have "int i = int ((y + p div w) * width gif + (x + p mod w))" ..
  then have "i = raster_cell gif x y w p"
    by (simp only: of_nat_eq_iff raster_cell_def)
  with i w show ?thesis by simp
qed

lemma visits_loop:
  assumes "visits ok al x y w gif0 gif s"
  shows "read_image_data al gif0 x y w = lzw_loop al x y w gif s"
  using assms
proof (induction rule: visits.induct)
  case (first gif s)
  then show ?case
    by (simp add: read_image_data_def)
next
  case (round gif s gif' s')
  from round(2) have "lzw_loop al x y w gif s = lzw_loop al x y w gif' s'"
    by (subst lzw_loop.simps) simp
  with round.IH show ?case by simp
qed

lemma lzw_iter_break:
  assumes "lzw_iter al x y w gif s = Some (Inr (Break gif' s'))"
  shows "gif' = gif\<lparr>fd := fd gif'\<rparr>"
proof -
  from assms obtain s1 where h: "lzw_head al s = Inr (Some s1)"
    by (cases "lzw_head al s") (auto simp: lzw_iter_def split: option.splits)
  from assms h obtain k gif1 sl sh b
    where g: "get_key gif (key_size s1) (sub_len s1) (shift s1) (byte s1) = Inr (k, gif1, sl, sh, b)"
    by (cases "get_key gif (key_size s1) (sub_len s1) (shift s1) (byte s1)")
       (auto simp: lzw_iter_def)
  from assms h g have "gif' = gif1"
    by (auto simp: lzw_iter_def Let_def split: if_splits option.splits sum.splits)
  with get_key_fd [OF g] show ?thesis by simp
qed

lemma lzw_loop_returns:
  assumes "lzw_loop al x y w gif s = Some r"
  shows "\<forall>c g. r = Inr (c, g) \<longrightarrow> c = 0 \<or> c = - 1 \<and> \<not> (\<forall>n. table_ok al n)"
proof (rule lzw_loop.raw_induct
         [where P = "\<lambda>al x y w gif s r. \<forall>c g. r = Inr (c, g) \<longrightarrow>
                        c = 0 \<or> c = - 1 \<and> \<not> (\<forall>n. table_ok al n)"
           and xa = "(((((al, x), y), w), gif), s)" and ya = r,
          unfolded prod.case, OF _ assms],
       goal_cases)
  case (1 f al x y w gif s r)
  note IH = "1"(1) and body = "1"(2)
  show ?case
  proof (intro allI impI)
    fix c g assume r: "r = Inr (c, g)"
    from body r obtain fl where it: "lzw_iter al x y w gif s = Some (Inr fl)"
      by (auto split: option.splits sum.splits)
    show "c = 0 \<or> c = - 1 \<and> \<not> (\<forall>n. table_ok al n)"
    proof (cases fl)
      case (Continue gif' s')
      with body it have "f al x y w gif' s' = Some r" by simp
      from IH [OF this] r show ?thesis by simp
    next
      case (Break gif' s')
      with body it r show ?thesis by simp
    next
      case (Return c' gif')
      with body it r have c: "c = c'" by simp
      from it Return have "lzw_head al s = Inr None \<and> c' = - 1"
        by (auto simp: lzw_iter_def Let_def split: sum.splits option.splits if_splits prod.splits)
      then have "\<not> (\<forall>n. table_ok al n)"
        by (auto simp: lzw_head_def add_entry_def store_entry_def Let_def
              split: if_splits option.splits bool.splits sum.splits prod.splits)
      with c \<open>lzw_head al s = Inr None \<and> c' = - 1\<close> show ?thesis by simp
    qed
  qed
qed

lemma read_image_data_returns:
  assumes "read_image_data al gif x y w = Some (Inr (c, g))"
  shows "c = 0 \<or> c = - 1 \<and> \<not> (\<forall>n. table_ok al n)"
proof -
  from assms obtain gif1 s where "lzw_loop al x y w gif1 s = Some (Inr (c, g))"
    by (auto simp: read_image_data_def split: sum.splits)
  from lzw_loop_returns [OF this] show ?thesis by simp
qed

section \<open>Pixel writes and the frame rectangle (C1)\<close>

text \<open>
  C1, as amended. Take a session whose minimum code size byte is at most 11 and in which
  every code looked up is below the number of entries, and a state at the head of the loop.
  The decoder there is the decoder that \<open>read_image_data\<close> was called with, at a later
  position of the stream, and with a raster in which the pixel writes made so far have been
  stored one after the other, the write with the linear offset \<open>p\<close> in the cell
  \<open>(y + p div w) * width + (x + p mod w)\<close>. These writes have the linear offsets below
  \<open>frm_off\<close>, each once, so their number is \<open>frm_off\<close>, whatever \<open>w * h\<close> is. For each
  of them the index that the code computes is that cell, and the cell is in the raster;
  when the columns of the rectangle are columns of the screen (\<open>x + w \<le> width\<close>), the
  cell lies in the frame rectangle, for any height \<open>h\<close>, exactly when \<open>p < w * h\<close>.
  A round that looks up a code stores the pixels with the offsets from the old \<open>frm_off\<close>
  up to, not including, the new one, from right to left; their number is \<open>str_len\<close>, by
  which \<open>frm_off\<close> grows. When the round reads the stop code, \<open>read_image_data\<close>
  returns 0 and the decoder with the writes made so far. The decoder compares \<open>frm_off\<close>
  with nothing and has no failure for it: when \<open>read_image_data\<close> returns, it returns 0
  or -1, and -1 only with an allocator that refuses a table of some size.
\<close>

theorem frame_writes:
  assumes "visits in_range al x y w gif0 gif s" and "init_key_size s \<le> 12"
  shows "gif = gif0\<lparr>fd := fd gif, frame := store_writes gif0 x y w (written s) (frame gif0)\<rparr> \<and>
         length (written s) = frm_off s \<and> distinct (map fst (written s)) \<and>
         set (map fst (written s)) = int ` {..<frm_off s} \<and>
         (\<forall>p < frm_off s.
            frame_index gif x y w (int p) = Inr (int (raster_cell gif x y w p)) \<and>
            raster_cell gif x y w p < length (frame gif) \<and>
            (x + w \<le> width gif \<longrightarrow>
               (in_rect gif x y w h (raster_cell gif x y w p) \<longleftrightarrow> p < w * h))) \<and>
         (\<forall>gif' s'. lzw_iter al x y w gif s = Some (Inr (Continue gif' s')) \<and>
                    in_range s' \<and> key s' \<noteq> clear s' \<longrightarrow>
            gif' = gif\<lparr>fd := fd gif',
                       frame := store_writes gif x y w (emitted s') (frame gif)\<rparr> \<and>
            written s' = written s @ emitted s' \<and>
            map fst (emitted s') = map int (rev [frm_off s..<frm_off s']) \<and>
            str_len s' = Some (length (emitted s')) \<and>
            frm_off s' = frm_off s + length (emitted s')) \<and>
         (\<forall>gif' s'. lzw_iter al x y w gif s = Some (Inr (Break gif' s')) \<longrightarrow>
            read_image_data al gif0 x y w =
              Some (Inr (0, gif\<lparr>fd := snd (read_byte (fd gif'))\<rparr>))) \<and>
         (\<forall>c g. read_image_data al gif0 x y w = Some (Inr (c, g)) \<longrightarrow>
            c = 0 \<or> c = - 1 \<and> \<not> (\<forall>n. table_ok al n))"
proof -
  from visits_table_inv [OF assms(1)] assms(2) have ti: "table_inv s" by simp
  note st = visits_stores [OF assms(1)]
  from visits_offsets [OF assms(1)] assms(2)
  have off: "length (written s) = frm_off s" "distinct (map fst (written s))"
    "set (map fst (written s)) = int ` {..<frm_off s}"
    by simp_all
  note kp = put_pixels_keeps [OF st]
  have nn: "\<forall>pv \<in> set (written s). 0 \<le> fst pv"
  proof
    fix pv assume "pv \<in> set (written s)"
    then have "fst pv \<in> set (map fst (written s))" by simp
    with off(3) show "0 \<le> fst pv" by auto
  qed
  from put_pixels_stored [OF st nn]
  have raster: "gif = gif0\<lparr>fd := fd gif,
                            frame := store_writes gif0 x y w (written s) (frame gif0)\<rparr>"
    by (simp add: store_writes_width [of "gif0\<lparr>fd := fd gif\<rparr>" gif0])
  have cells: "frame_index gif x y w (int p) = Inr (int (raster_cell gif x y w p)) \<and>
            raster_cell gif x y w p < length (frame gif) \<and>
            (x + w \<le> width gif \<longrightarrow>
               (in_rect gif x y w h (raster_cell gif x y w p) \<longleftrightarrow> p < w * h))"
    if p: "p < frm_off s" for p
  proof -
    from p off(3) have "int p \<in> set (map fst (written s))"
      by simp
    then obtain v where pv: "(int p, v) \<in> set (written s)"
      by auto
    note c = put_pixels_cells [OF st pv]
    from kp have fw: "frame_index gif x y w (int p) =
        frame_index (gif0\<lparr>fd := fd gif\<rparr>) x y w (int p)"
      by (intro frame_index_width) simp
    from kp have rc: "raster_cell gif x y w p = raster_cell (gif0\<lparr>fd := fd gif\<rparr>) x y w p"
      by (simp add: raster_cell_def)
    from c kp have "frame_index gif x y w (int p) = Inr (int (raster_cell gif x y w p))"
      "raster_cell gif x y w p < length (frame gif)" "0 < w"
      by (simp_all add: fw rc)
    with in_rect_raster_cell [of w x gif y h p] show ?thesis
      by simp
  qed
  have rounds: "gif' = gif\<lparr>fd := fd gif',
                       frame := store_writes gif x y w (emitted s') (frame gif)\<rparr> \<and>
            written s' = written s @ emitted s' \<and>
            map fst (emitted s') = map int (rev [frm_off s..<frm_off s']) \<and>
            str_len s' = Some (length (emitted s')) \<and>
            frm_off s' = frm_off s + length (emitted s')"
    if it: "lzw_iter al x y w gif s = Some (Inr (Continue gif' s'))"
      and ok: "in_range s'" and k: "key s' \<noteq> clear s'" for gif' s'
  proof -
    from round_stores [OF it st] k
    have pp: "put_pixels (gif\<lparr>fd := fd gif'\<rparr>) x y w (emitted s') = Inr gif'"
      and wr: "written s' = written s @ emitted s'"
      by simp_all
    from round_offsets [OF ti it ok] k
    have pos: "map fst (emitted s') = map int (rev [frm_off s..<frm_off s'])"
      and fo: "frm_off s' = frm_off s + length (emitted s')"
      and sl: "str_len s' = Some (length (emitted s'))"
      by simp_all
    have se: "set (map fst (emitted s')) = int ` {frm_off s..<frm_off s'}"
      by (simp add: pos)
    have "\<forall>pv \<in> set (emitted s'). 0 \<le> fst pv"
    proof
      fix pv assume "pv \<in> set (emitted s')"
      then have "fst pv \<in> set (map fst (emitted s'))" by simp
      with se show "0 \<le> fst pv" by auto
    qed
    from put_pixels_stored [OF pp this]
    have "gif' = gif\<lparr>fd := fd gif',
                      frame := store_writes gif x y w (emitted s') (frame gif)\<rparr>"
      by (simp add: store_writes_width [of "gif\<lparr>fd := fd gif'\<rparr>" gif])
    with wr pos fo sl show ?thesis
      by simp
  qed
  have stops: "read_image_data al gif0 x y w =
              Some (Inr (0, gif\<lparr>fd := snd (read_byte (fd gif'))\<rparr>))"
    if it: "lzw_iter al x y w gif s = Some (Inr (Break gif' s'))" for gif' s'
  proof -
    from it have "lzw_loop al x y w gif s = Some (Inr (0, gif'\<lparr>fd := snd (read_byte (fd gif'))\<rparr>))"
      by (subst lzw_loop.simps) simp
    moreover have "gif'\<lparr>fd := f\<rparr> = gif\<lparr>fd := f\<rparr>" for f
      by (subst lzw_iter_break [OF it]) simp
    ultimately show ?thesis
      by (simp add: visits_loop [OF assms(1)])
  qed
  have rets: "c = 0 \<or> c = - 1 \<and> \<not> (\<forall>n. table_ok al n)"
    if "read_image_data al gif0 x y w = Some (Inr (c, g))" for c g
    using that by (rule read_image_data_returns)
  from raster off cells rounds stops rets show ?thesis
    by blast
qed

theorem frame_writes_witness:
  "visits in_range generous 0 0 1 (decoder_on two_pixels)
     (gif_at generous 0 0 1 (decoder_on two_pixels) (Suc 0))
     (state_at generous 0 0 1 (decoder_on two_pixels) (Suc 0)) \<and>
   init_key_size (state_at generous 0 0 1 (decoder_on two_pixels) (Suc 0)) \<le> 12 \<and>
   lzw_iter generous 0 0 1 (gif_at generous 0 0 1 (decoder_on two_pixels) (Suc 0))
     (state_at generous 0 0 1 (decoder_on two_pixels) (Suc 0)) =
     Some (Inr (Continue (gif_at generous 0 0 1 (decoder_on two_pixels) (Suc (Suc 0)))
                  (state_at generous 0 0 1 (decoder_on two_pixels) (Suc (Suc 0))))) \<and>
   in_range (state_at generous 0 0 1 (decoder_on two_pixels) (Suc (Suc 0))) \<and>
   key (state_at generous 0 0 1 (decoder_on two_pixels) (Suc (Suc 0))) \<noteq>
     clear (state_at generous 0 0 1 (decoder_on two_pixels) (Suc (Suc 0))) \<and>
   written (state_at generous 0 0 1 (decoder_on two_pixels) (Suc 0)) = [(0, 1)] \<and>
   emitted (state_at generous 0 0 1 (decoder_on two_pixels) (Suc (Suc 0))) = [(1, 1)] \<and>
   written (state_at generous 0 0 1 (decoder_on two_pixels) (Suc (Suc 0))) = [(0, 1), (1, 1)] \<and>
   frm_off (state_at generous 0 0 1 (decoder_on two_pixels) (Suc (Suc 0))) = 2 \<and>
   str_len (state_at generous 0 0 1 (decoder_on two_pixels) (Suc (Suc 0))) = Some 1 \<and>
   visits in_range generous 0 0 1 (decoder_on two_pixels)
     (gif_at generous 0 0 1 (decoder_on two_pixels) (Suc (Suc 0)))
     (state_at generous 0 0 1 (decoder_on two_pixels) (Suc (Suc 0))) \<and>
   gif_at generous 0 0 1 (decoder_on two_pixels) (Suc (Suc 0)) =
     (decoder_on two_pixels)
       \<lparr>fd := \<lparr>content = two_pixels, offset = 4\<rparr>,
        frame := store_writes (decoder_on two_pixels) 0 0 1 [(0, 1), (1, 1)]
                   (frame (decoder_on two_pixels))\<rparr> \<and>
   frame (gif_at generous 0 0 1 (decoder_on two_pixels) (Suc (Suc 0))) = [1, 0, 1, 0] \<and>
   frame_index (gif_at generous 0 0 1 (decoder_on two_pixels) (Suc (Suc 0))) 0 0 1 (int 1) =
     Inr (int 2) \<and>
   raster_cell (gif_at generous 0 0 1 (decoder_on two_pixels) (Suc (Suc 0))) 0 0 1 1 = 2 \<and>
   0 + 1 \<le> width (gif_at generous 0 0 1 (decoder_on two_pixels) (Suc (Suc 0))) \<and>
   \<not> in_rect (gif_at generous 0 0 1 (decoder_on two_pixels) (Suc (Suc 0))) 0 0 1 1 2 \<and>
   \<not> (1::nat) < 1 * 1 \<and>
   lzw_iter generous 0 0 1 (gif_at generous 0 0 1 (decoder_on two_pixels) (Suc (Suc 0)))
     (state_at generous 0 0 1 (decoder_on two_pixels) (Suc (Suc 0))) =
     Some (Inr (Break (gif_at generous 0 0 1 (decoder_on two_pixels) (Suc (Suc 0)))
                  ((after_head generous (state_at generous 0 0 1 (decoder_on two_pixels) (Suc (Suc 0))))
                     \<lparr>key := 5, sub_len := 0, shift := 4, byte := 0x0A\<rparr>))) \<and>
   read_image_data generous (decoder_on two_pixels) 0 0 1 =
     Some (Inr (0, (decoder_on two_pixels)
                     \<lparr>fd := \<lparr>content = two_pixels, offset = 5\<rparr>, frame := [1, 0, 1, 0]\<rparr>))"
proof -
  let ?g = "\<lambda>n. gif_at generous 0 0 1 (decoder_on two_pixels) n"
  let ?s = "\<lambda>n. state_at generous 0 0 1 (decoder_on two_pixels) n"
  have d: "nth_round generous 0 0 1 (decoder_on two_pixels) (Suc (Suc 0)) \<noteq> None"
    by (simp add: run_simps two_pixels_def)
  note it = nth_round_Suc [OF d]
  have ok: "in_range (?s 0)" "in_range (?s (Suc 0))" "in_range (?s (Suc (Suc 0)))"
    by (simp_all add: in_range_def at_simps run_simps two_pixels_def)
  have v1: "visits in_range generous 0 0 1 (decoder_on two_pixels) (?g (Suc 0)) (?s (Suc 0))"
    using it ok by (intro visits_at) (simp_all add: le_Suc_eq)
  have v2: "visits in_range generous 0 0 1 (decoder_on two_pixels)
              (?g (Suc (Suc 0))) (?s (Suc (Suc 0)))"
    using d ok by (intro visits_at) (simp_all add: le_Suc_eq)
  have i: "init_key_size (?s (Suc 0)) \<le> 12" "init_key_size (?s (Suc (Suc 0))) \<le> 12"
    by (simp_all add: at_simps run_simps two_pixels_def)
  have k: "key (?s (Suc (Suc 0))) \<noteq> clear (?s (Suc (Suc 0)))"
    "written (?s (Suc 0)) = [(0, 1)]" "frm_off (?s (Suc (Suc 0))) = 2"
    "fd (?g (Suc (Suc 0))) = \<lparr>content = two_pixels, offset = 4\<rparr>"
    "width (?g (Suc (Suc 0))) = 2"
    by (simp_all add: at_simps run_simps two_pixels_def)
  from it have r: "lzw_iter generous 0 0 1 (?g (Suc 0)) (?s (Suc 0)) =
      Some (Inr (Continue (?g (Suc (Suc 0))) (?s (Suc (Suc 0)))))"
    by simp
  have b: "lzw_iter generous 0 0 1 (?g (Suc (Suc 0))) (?s (Suc (Suc 0))) =
     Some (Inr (Break (?g (Suc (Suc 0)))
                  ((after_head generous (?s (Suc (Suc 0))))
                     \<lparr>key := 5, sub_len := 0, shift := 4, byte := 0x0A\<rparr>)))"
    by (simp add: at_simps run_simps two_pixels_def after_head_def)
  have e: "emitted (?s (Suc (Suc 0))) = [(1, 1)]"
    "frame (?g (Suc (Suc 0))) = [1, 0, 1, 0]"
    by (simp_all add: at_simps run_simps two_pixels_def)
  have c: "frame_index (?g (Suc (Suc 0))) 0 0 1 (int 1) = Inr (int 2)"
    "raster_cell (?g (Suc (Suc 0))) 0 0 1 1 = 2"
    "\<not> in_rect (?g (Suc (Suc 0))) 0 0 1 1 2"
    using k(5)
    by (simp_all add: frame_index_def raster_cell_def in_rect_def int_ok_def
          signed_divide_int_def signed_modulo_int_def)
  note t1 = frame_writes [OF v1 i(1), where h = 1]
  note t2 = frame_writes [OF v2 i(2), where h = 1]
  from t1 r ok(3) k(1)
  have w2: "written (?s (Suc (Suc 0))) = written (?s (Suc 0)) @ emitted (?s (Suc (Suc 0)))"
    and sl: "str_len (?s (Suc (Suc 0))) = Some (length (emitted (?s (Suc (Suc 0)))))"
    by blast+
  from w2 k(2) e(1) have w2': "written (?s (Suc (Suc 0))) = [(0, 1), (1, 1)]"
    by simp
  from sl e(1) have sl': "str_len (?s (Suc (Suc 0))) = Some 1"
    by simp
  from t2 have "?g (Suc (Suc 0)) =
      (decoder_on two_pixels)
        \<lparr>fd := fd (?g (Suc (Suc 0))),
         frame := store_writes (decoder_on two_pixels) 0 0 1 (written (?s (Suc (Suc 0))))
                    (frame (decoder_on two_pixels))\<rparr>"
    by blast
  then have pp: "?g (Suc (Suc 0)) =
      (decoder_on two_pixels)
        \<lparr>fd := \<lparr>content = two_pixels, offset = 4\<rparr>,
         frame := store_writes (decoder_on two_pixels) 0 0 1 [(0, 1), (1, 1)]
                    (frame (decoder_on two_pixels))\<rparr>"
    by (simp only: w2' k(4))
  from t2 b have "read_image_data generous (decoder_on two_pixels) 0 0 1 =
      Some (Inr (0, (?g (Suc (Suc 0)))\<lparr>fd := snd (read_byte (fd (?g (Suc (Suc 0)))))\<rparr>))"
    by blast
  then have rd: "read_image_data generous (decoder_on two_pixels) 0 0 1 =
     Some (Inr (0, (decoder_on two_pixels)
                     \<lparr>fd := \<lparr>content = two_pixels, offset = 5\<rparr>, frame := [1, 0, 1, 0]\<rparr>))"
    by (simp add: at_simps run_simps two_pixels_def)
  have le: "0 + 1 \<le> width (?g (Suc (Suc 0)))" "\<not> (1::nat) < 1 * 1"
    using k(5) by simp_all
  show ?thesis
    by (intro conjI)
       (fact v1 v2 i r ok k b e c w2' sl' pp rd le)+
qed

text \<open>
  C1 as stated fails. \<open>small_image\<close> describes the rectangle of one pixel at the origin
  of the screen of 2 by 2 pixels, and its data hold two pixels: the decoder writes the first
  to the raster offset 0 and the second to the raster offset 2, which is row 1, outside the
  rectangle, and returns 0.
\<close>

theorem write_outside_rect:
  "read_image generous (decoder_on small_image) =
     Some (Inr (0, (decoder_on small_image)
                     \<lparr>fd := \<lparr>content = small_image, offset = 14\<rparr>, frame := [1, 0, 1, 0]\<rparr>))"
  by (simp add: run_simps small_image_def two_pixels_def read_image_def read_num_def
      read_bytes_def zero_gce_def zero_palette_def)

section \<open>The code that is not in the table yet (C5)\<close>

lemma string_of_writes: "string_of (writes_of f c) = rev (map suffix_e c)"
  by (simp add: string_of_def writes_of_def o_def)

text \<open>
  C5, as amended. In a session whose minimum code size byte is at most 11 and in which
  every code looked up is below the number of entries, take a round that starts after a
  string was written, with a table that is not full, and that looks up a code. Its head adds
  the entry number \<open>N\<close>, where \<open>N\<close> is the number of entries before: the previous string
  and, as suffix, the first byte of the previous string. If the code read is \<open>N\<close>, the
  string written is the previous string followed by its first byte, and the new entry stays
  as it is. If the code read is below \<open>N\<close> and the table has not become full, the suffix
  of entry \<open>N\<close> is set, after the string is written, to the first byte of that string.
\<close>

theorem kwkwk_string:
  assumes "visits in_range al x y w gif0 gif s" and "init_key_size s \<le> 12"
    and "key s \<noteq> clear s" and "table_is_full s = Some False"
    and "lzw_iter al x y w gif s = Some (Inr (Continue gif' s'))"
    and "in_range s'" and "key s' \<noteq> clear s'"
  shows "nentries (table s') = nentries (table s) + 1 \<and>
         (key s' = nentries (table s) \<longrightarrow>
            string_of (emitted s') = string_of (emitted s) @ [hd (string_of (emitted s))] \<and>
            entries (table s') (nentries (table s)) =
              \<lparr>length_e = length (emitted s) + 1, prefix_e = key s,
               suffix_e = hd (string_of (emitted s))\<rparr>) \<and>
         (key s' < nentries (table s) \<and> table_is_full s' = Some False \<longrightarrow>
            entries (table s') (nentries (table s)) =
              \<lparr>length_e = length (emitted s) + 1, prefix_e = key s,
               suffix_e = hd (string_of (emitted s'))\<rparr>)"
proof -
  let ?N = "nentries (table s)"
  let ?c = "chain_of (table s) (key s)"
  let ?L = "length_e (entries (table s) (key s))"
  from visits_table_inv [OF assms(1)] assms(2) have ti: "table_inv s" by simp
  from ti assms(3,4) have st: "stop s = clear s + 1"
    and gt0: "good_table (clear s) (table s)"
    and kn: "key s < ?N" and ks: "key s \<noteq> stop s"
    and em: "emitted s = writes_of (frm_off s - ?L) ?c"
    unfolding table_inv_def by auto
  from kn ks st assms(3) have gc0: "good_code (clear s) (table s) (key s)"
    by (simp add: good_code_def)
  note cg0 = chain_good [OF gt0 gc0]
  from cg0 have "length (map length_e ?c) = ?L" by simp
  then have lc: "length ?c = ?L" by simp
  from em lc have le: "length (emitted s) = ?L"
    by (simp add: writes_of_def)
  from cg0 have ne: "?c \<noteq> []" by simp
  have so: "string_of (emitted s) = rev (map suffix_e ?c)"
    by (simp add: em string_of_writes)
  from ne have hd0: "hd (string_of (emitted s)) = suffix_e (last ?c)"
    by (simp add: so hd_rev last_map)
  let ?new = "\<lparr>length_e = ?L + 1, prefix_e = key s, suffix_e = suffix_e (last ?c)\<rparr>"
  from assms(5) show ?thesis
  proof (cases rule: lzw_iter_cases)
    case (cleared s1 sl sh b)
    with assms(7) lzw_head_keeps [OF cleared(1)] show ?thesis by simp
  next
    case (emitted s1 k gif1 sl sh b e' log)
    note hk = lzw_head_keeps [OF emitted(1)]
    from table_inv_head [OF ti emitted(1)] assms(3,4)
    have gt: "good_table (clear s) (table s1)"
      and n1: "nentries (table s1) = Suc ?N"
      and e1: "entries (table s1) = (entries (table s))(?N := ?new)"
      by simp_all
    have ns: "nentries (table s') = nentries (table s1)" "key s' = k"
      using emitted(7) by (cases rule: patch_suffix_cases; simp add: looked_up_def)+
    from assms(6) ns have k1: "k < nentries (table s1)"
      by (simp add: in_range_def)
    note r = round_emitted [OF ti emitted(1,3,4) k1 emitted(6,7)]
    from k1 emitted(3,4) hk st have gc: "good_code (clear s) (table s1) k"
      by (simp add: good_code_def)
    from gt0 have cN: "clear s + 2 \<le> ?N" by (simp add: good_table_def)
    have agree: "chain_of (table s1) (key s) = ?c"
      using kn by (intro chain_of_agree [OF gt0 gc0]) (simp add: e1)
    have kw: "string_of (emitted s') = string_of (emitted s) @ [hd (string_of (emitted s))] \<and>
              entries (table s') ?N = ?new" if "k = ?N"
    proof -
      from that cN have "clear s \<le> k" by simp
      from chain_of_composed [OF gt gc this] that kn
      have "chain_of (table s1) k = ?new # chain_of (table s1) (key s)"
        by (simp add: e1)
      with r agree have "emitted s' = writes_of (frm_off s) (?new # ?c)"
        by simp
      then have "string_of (emitted s') = rev (map suffix_e ?c) @ [suffix_e (last ?c)]"
        by (simp add: string_of_writes)
      moreover from r that have "entries (table s') ?N = ?new"
        by (simp add: e1)
      ultimately show ?thesis
        using hd0 by (simp add: so)
    qed
    have pt: "entries (table s') ?N =
              \<lparr>length_e = ?L + 1, prefix_e = key s, suffix_e = hd (string_of (emitted s'))\<rparr>"
      if "k < ?N" and "table_is_full s' = Some False"
    proof -
      let ?u = "looked_up s1 k sl sh b e' log"
      from r that(2) have tf: "table_is_full ?u = Some False"
        by (simp add: looked_up_def)
      from that(1) n1 have lt: "k + 1 < nentries (table ?u)"
        by (simp add: looked_up_def)
      from chain_good [OF gt gc] have ne': "chain_of (table s1) k \<noteq> []" by simp
      from r ne' have hd': "hd (string_of (emitted s')) = suffix_e (last (chain_of (table s1) k))"
        by (simp add: string_of_writes hd_rev last_map)
      from write_string_good [OF gt gc, of gif1 x y w "frm_off s1" "[]"] emitted(6)
      have e': "e' = last (chain_of (table s1) k)"
        by auto
      from emitted(7) show ?thesis
      proof (cases rule: patch_suffix_cases)
        case same
        with tf lt show ?thesis by simp
      next
        case (patched e)
        from patched(3) have ee: "e = e'" by (simp add: looked_up_def)
        from patched(5) n1
        have "entries (table s') ?N = (entries (table s1) ?N)\<lparr>suffix_e := suffix_e e\<rparr>"
          by (simp add: looked_up_def)
        then show ?thesis
          by (simp add: e1 hd' ee e')
      qed
    qed
    from ns n1 kw pt le hd0 show ?thesis
      by simp
  qed
qed

theorem kwkwk_string_witness:
  "visits in_range generous 0 0 2 (decoder_on repeat_data)
     (gif_at generous 0 0 2 (decoder_on repeat_data) (Suc 0))
     (state_at generous 0 0 2 (decoder_on repeat_data) (Suc 0)) \<and>
   init_key_size (state_at generous 0 0 2 (decoder_on repeat_data) (Suc 0)) \<le> 12 \<and>
   key (state_at generous 0 0 2 (decoder_on repeat_data) (Suc 0)) \<noteq>
     clear (state_at generous 0 0 2 (decoder_on repeat_data) (Suc 0)) \<and>
   table_is_full (state_at generous 0 0 2 (decoder_on repeat_data) (Suc 0)) = Some False \<and>
   lzw_iter generous 0 0 2 (gif_at generous 0 0 2 (decoder_on repeat_data) (Suc 0))
     (state_at generous 0 0 2 (decoder_on repeat_data) (Suc 0)) =
     Some (Inr (Continue (gif_at generous 0 0 2 (decoder_on repeat_data) (Suc (Suc 0)))
                  (state_at generous 0 0 2 (decoder_on repeat_data) (Suc (Suc 0))))) \<and>
   in_range (state_at generous 0 0 2 (decoder_on repeat_data) (Suc (Suc 0))) \<and>
   key (state_at generous 0 0 2 (decoder_on repeat_data) (Suc (Suc 0))) \<noteq>
     clear (state_at generous 0 0 2 (decoder_on repeat_data) (Suc (Suc 0))) \<and>
   key (state_at generous 0 0 2 (decoder_on repeat_data) (Suc (Suc 0))) =
     nentries (table (state_at generous 0 0 2 (decoder_on repeat_data) (Suc 0))) \<and>
   string_of (emitted (state_at generous 0 0 2 (decoder_on repeat_data) (Suc 0))) = [1] \<and>
   string_of (emitted (state_at generous 0 0 2 (decoder_on repeat_data) (Suc (Suc 0)))) = [1, 1]"
proof -
  let ?g = "\<lambda>n. gif_at generous 0 0 2 (decoder_on repeat_data) n"
  let ?s = "\<lambda>n. state_at generous 0 0 2 (decoder_on repeat_data) n"
  have d: "nth_round generous 0 0 2 (decoder_on repeat_data) (Suc (Suc 0)) \<noteq> None"
    by (simp add: run_simps repeat_data_def)
  note it = nth_round_Suc [OF d]
  have ok: "in_range (?s 0)" "in_range (?s (Suc 0))" "in_range (?s (Suc (Suc 0)))"
    by (simp_all add: in_range_def at_simps run_simps repeat_data_def)
  have v: "visits in_range generous 0 0 2 (decoder_on repeat_data) (?g (Suc 0)) (?s (Suc 0))"
    using it ok by (intro visits_at) (simp_all add: le_Suc_eq)
  have i: "init_key_size (?s (Suc 0)) \<le> 12"
    by (simp add: at_simps run_simps repeat_data_def)
  have k: "key (?s (Suc 0)) \<noteq> clear (?s (Suc 0))"
    "table_is_full (?s (Suc 0)) = Some False"
    "key (?s (Suc (Suc 0))) \<noteq> clear (?s (Suc (Suc 0)))"
    "key (?s (Suc (Suc 0))) = nentries (table (?s (Suc 0)))"
    "string_of (emitted (?s (Suc 0))) = [1]"
    by (simp_all add: string_of_def at_simps run_simps repeat_data_def)
  from it have r: "lzw_iter generous 0 0 2 (?g (Suc 0)) (?s (Suc 0)) =
      Some (Inr (Continue (?g (Suc (Suc 0))) (?s (Suc (Suc 0)))))"
    by simp
  from kwkwk_string [OF v i k(1,2) r ok(3) k(3)] v i r ok k show ?thesis
    by simp
qed

text \<open>
  C5 as stated fails: with the minimum code size byte 12, in \<open>wide_codes\<close>, the string
  of the code 4095 is the one byte \<open>0xFF\<close>; then the code 4098 is read when the table had
  4098 entries before the addition, and the string written for it is that one byte, not the
  two bytes \<open>0xFF\<close>, \<open>0xFF\<close>.
\<close>

theorem kwkwk_cut_short:
  "nth_round generous 0 0 2 (decoder_on wide_codes) (Suc (Suc 0)) \<noteq> None \<and>
   key (state_at generous 0 0 2 (decoder_on wide_codes) (Suc (Suc 0))) =
     nentries (table (state_at generous 0 0 2 (decoder_on wide_codes) (Suc 0))) \<and>
   string_of (emitted (state_at generous 0 0 2 (decoder_on wide_codes) (Suc 0))) = [0xFF] \<and>
   string_of (emitted (state_at generous 0 0 2 (decoder_on wide_codes) (Suc (Suc 0)))) = [0xFF]"
  by (simp add: string_of_def at_simps run_simps wide_codes_def)

end
